theory Spec2Isabelle
  imports Main "HOL-Library.Sublist"
begin

section \<open>Strings\<close>

text \<open>
  A JavaScript string is modelled as a \<^typ>\<open>string\<close>: a list of code units, here the
  code units \<open>0..255\<close>. The regular expressions of \<^verbatim>\<open>main.ts\<close> carry no \<^verbatim>\<open>u\<close> flag,
  so they work code unit by code unit. \<open>is_lt\<close> is the class of line terminators
  (what \<^verbatim>\<open>.\<close> refuses and after which \<^verbatim>\<open>^\<close> matches under the \<^verbatim>\<open>m\<close> flag), \<open>is_ws\<close>
  the class \<^verbatim>\<open>\s\<close>, which is also what \<^verbatim>\<open>trim\<close> and \<^verbatim>\<open>trimEnd\<close> remove.
\<close>

definition is_lt :: "char \<Rightarrow> bool" where
  "is_lt c \<longleftrightarrow> c = CHR 0x0A \<or> c = CHR 0x0D"

definition is_ws :: "char \<Rightarrow> bool" where
  "is_ws c \<longleftrightarrow> c = CHR 0x09 \<or> c = CHR 0x0A \<or> c = CHR 0x0B \<or> c = CHR 0x0C
     \<or> c = CHR 0x0D \<or> c = CHR 0x20 \<or> c = CHR 0xA0"

definition trimStart :: "string \<Rightarrow> string" where
  "trimStart s = dropWhile is_ws s"

definition trimEnd :: "string \<Rightarrow> string" where
  "trimEnd s = rev (dropWhile is_ws (rev s))"

definition trim :: "string \<Rightarrow> string" where
  "trim s = trimEnd (trimStart s)"

text \<open>\<^verbatim>\<open>s.includes(t)\<close>: \<open>t\<close> occurs in \<open>s\<close> as a contiguous block.\<close>

fun str_includes :: "string \<Rightarrow> string \<Rightarrow> bool" where
  "str_includes [] t = (t = [])"
| "str_includes (c # cs) t = (prefix t (c # cs) \<or> str_includes cs t)"

text \<open>\<^verbatim>\<open>parts.join(sep)\<close>.\<close>

fun join :: "string \<Rightarrow> string list \<Rightarrow> string" where
  "join sep [] = []"
| "join sep [x] = x"
| "join sep (x # y # ys) = x @ sep @ join sep (y # ys)"

text \<open>
  \<^verbatim>\<open>s.replace(/\n{3,}/g, '\n\n')\<close>: at the leftmost position where three newlines start,
  the whole run is taken (the quantifier is greedy) and two newlines are written; the
  scan goes on after the run.
\<close>

function collapseNewlines :: "string \<Rightarrow> string" where
  "collapseNewlines s =
     (if prefix ''\<newline>\<newline>\<newline>'' s
      then ''\<newline>\<newline>'' @ collapseNewlines (dropWhile (\<lambda>c. c = CHR ''\<newline>'') s)
      else (case s of [] \<Rightarrow> [] | c # cs \<Rightarrow> c # collapseNewlines cs))"
  by pat_completeness auto
termination
proof (relation "measure length")
  show "wf (measure length)" by simp
next
  fix s :: string
  assume "prefix ''\<newline>\<newline>\<newline>'' s"
  then obtain t where "s = CHR ''\<newline>'' # t" by (auto simp: prefix_def)
  moreover have "length (dropWhile (\<lambda>c. c = CHR ''\<newline>'') t) \<le> length t"
    by (rule length_dropWhile_le)
  ultimately show "(dropWhile (\<lambda>c. c = CHR ''\<newline>'') s, s) \<in> measure length" by simp
next
  fix s :: string and c cs
  assume "s = c # cs"
  then show "(cs, s) \<in> measure length" by simp
qed

declare collapseNewlines.simps [simp del]

section \<open>Maps and sets with insertion order\<close>

text \<open>
  A JavaScript \<^verbatim>\<open>Map\<close> iterates in insertion order, and \<^verbatim>\<open>set\<close> on a key already
  present keeps the key's place and replaces its value: an association list with
  distinct keys. A \<^verbatim>\<open>Set\<close> is a list without repetition.
\<close>

type_synonym ('k, 'v) jsmap = "('k \<times> 'v) list"

fun map_set :: "'k \<Rightarrow> 'v \<Rightarrow> ('k, 'v) jsmap \<Rightarrow> ('k, 'v) jsmap" where
  "map_set k v [] = [(k, v)]"
| "map_set k v (e # m) = (if fst e = k then (k, v) # m else e # map_set k v m)"

definition map_has :: "('k, 'v) jsmap \<Rightarrow> 'k \<Rightarrow> bool" where
  "map_has m k \<longleftrightarrow> k \<in> set (map fst m)"

definition map_get :: "('k, 'v) jsmap \<Rightarrow> 'k \<Rightarrow> 'v option" where
  "map_get m k = map_of m k"

definition map_delete :: "'k \<Rightarrow> ('k, 'v) jsmap \<Rightarrow> ('k, 'v) jsmap" where
  "map_delete k m = filter (\<lambda>e. fst e \<noteq> k) m"

definition map_new :: "('k \<times> 'v) list \<Rightarrow> ('k, 'v) jsmap" where
  "map_new es = fold (\<lambda>e m. map_set (fst e) (snd e) m) es []"

definition set_add :: "'a \<Rightarrow> 'a list \<Rightarrow> 'a list" where
  "set_add x xs = (if x \<in> set xs then xs else xs @ [x])"

text \<open>
  \<^verbatim>\<open>Array.prototype.sort(cmp)\<close> is stable; for a comparator \<open>cmp\<close> (negative, zero or
  positive) it is insertion from the right, an element going before the first one it
  does not exceed.
\<close>

fun insert_by :: "('a \<Rightarrow> 'a \<Rightarrow> int) \<Rightarrow> 'a \<Rightarrow> 'a list \<Rightarrow> 'a list" where
  "insert_by cmp x [] = [x]"
| "insert_by cmp x (y # ys) = (if cmp x y \<le> 0 then x # y # ys else y # insert_by cmp x ys)"

definition sort_by :: "('a \<Rightarrow> 'a \<Rightarrow> int) \<Rightarrow> 'a list \<Rightarrow> 'a list" where
  "sort_by cmp xs = foldr (insert_by cmp) xs []"

section \<open>The annotation parser\<close>

record Position =
  start :: nat
  endp :: nat

record ParsedReference = Position +
  ref :: string
  fullMatch :: string

record ParsedDefinition = ParsedReference +
  defn :: string

text \<open>
  The tail \<^verbatim>\<open>(?:\n(?:\ {4}|\t|\s{2,}).*)*\<close> of the definition pattern: as long as a
  newline is followed by four spaces, or a tab, or at least two white-space characters
  (taken greedily, newlines included), the rest of that line belongs to the match.
  The function returns what is left of the text.
\<close>

function continuation :: "string \<Rightarrow> string" where
  "continuation s =
     (case s of
        [] \<Rightarrow> s
      | c # w \<Rightarrow>
          if c \<noteq> CHR ''\<newline>'' then s
          else if take 4 w = ''    '' then continuation (dropWhile (\<lambda>c. \<not> is_lt c) (drop 4 w))
          else if take 1 w = [CHR 0x09] then continuation (dropWhile (\<lambda>c. \<not> is_lt c) (drop 1 w))
          else if 2 \<le> length (takeWhile is_ws w)
               then continuation (dropWhile (\<lambda>c. \<not> is_lt c) (dropWhile is_ws w))
          else s)"
  by pat_completeness auto
termination
proof (relation "measure length")
  show "wf (measure length)" by simp
next
  fix s :: string and c w
  assume "s = c # w"
  moreover have "length (dropWhile (\<lambda>c. \<not> is_lt c) (drop 4 w)) \<le> length (drop 4 w)"
    by (rule length_dropWhile_le)
  ultimately show "(dropWhile (\<lambda>c. \<not> is_lt c) (drop 4 w), s) \<in> measure length" by simp
next
  fix s :: string and c w
  assume "s = c # w"
  moreover have "length (dropWhile (\<lambda>c. \<not> is_lt c) (drop 1 w)) \<le> length (drop 1 w)"
    by (rule length_dropWhile_le)
  ultimately show "(dropWhile (\<lambda>c. \<not> is_lt c) (drop 1 w), s) \<in> measure length" by simp
next
  fix s :: string and c w
  assume "s = c # w"
  moreover have "length (dropWhile (\<lambda>c. \<not> is_lt c) (dropWhile is_ws w)) \<le> length (dropWhile is_ws w)"
    by (rule length_dropWhile_le)
  moreover have "length (dropWhile is_ws w) \<le> length w"
    by (rule length_dropWhile_le)
  ultimately show "(dropWhile (\<lambda>c. \<not> is_lt c) (dropWhile is_ws w), s) \<in> measure length" by simp
qed

declare continuation.simps [simp del]

text \<open>
  One attempt of \<^verbatim>\<open>/^(\s*)\[\^([^\]]+?)\]:\s*(.*(?:(?:\n(?:\ {4}|\t|\s{2,}).*)*))/gm\<close> at
  the start of a line. The result is group 2, group 3 and the text after the match.
  Group 2 is lazy over characters other than \<^verbatim>\<open>]\<close>, so it ends at the first \<^verbatim>\<open>]\<close>,
  which a colon must follow; it holds at least one character.
\<close>

definition match_def :: "string \<Rightarrow> (string \<times> string \<times> string) option" where
  "match_def s =
     (case dropWhile is_ws s of
        c1 # c2 # t \<Rightarrow>
          if c1 = CHR ''['' \<and> c2 = CHR ''^'' then
            (let m2 = takeWhile (\<lambda>c. c \<noteq> CHR '']'') t;
                 u = dropWhile (\<lambda>c. c \<noteq> CHR '']'') t
             in if m2 = [] then None
                else (case u of
                        d1 # d2 # v \<Rightarrow>
                          if d1 = CHR '']'' \<and> d2 = CHR '':'' then
                            (let b = dropWhile is_ws v;
                                 rest = continuation (dropWhile (\<lambda>c. \<not> is_lt c) b)
                             in Some (m2, take (length b - length rest) b, rest))
                          else None
                      | _ \<Rightarrow> None))
          else None
      | _ \<Rightarrow> None)"

text \<open>
  \<^verbatim>\<open>match[3].replace(/\n(?: {4}|\t|\s{2,})/g, '\n')\<close>: the indentation of each
  continuation line is removed. Nothing follows the alternation here, so the first
  alternative that matches is kept: four spaces take exactly four.
\<close>

function unindent :: "string \<Rightarrow> string" where
  "unindent s =
     (case s of
        [] \<Rightarrow> []
      | c # w \<Rightarrow>
          if c \<noteq> CHR ''\<newline>'' then c # unindent w
          else if take 4 w = ''    '' then CHR ''\<newline>'' # unindent (drop 4 w)
          else if take 1 w = [CHR 0x09] then CHR ''\<newline>'' # unindent (drop 1 w)
          else if 2 \<le> length (takeWhile is_ws w) then CHR ''\<newline>'' # unindent (dropWhile is_ws w)
          else CHR ''\<newline>'' # unindent w)"
  by pat_completeness auto
termination
proof (relation "measure length")
  show "wf (measure length)" by simp
next
  fix s :: string and c w
  assume "s = c # w"
  moreover have "length (dropWhile is_ws w) \<le> length w"
    by (rule length_dropWhile_le)
  ultimately show "(dropWhile is_ws w, s) \<in> measure length" by simp
qed simp_all

declare unindent.simps [simp del]

text \<open>
  The loop \<^verbatim>\<open>while ((match = defRegex.exec(content)) !== null)\<close>. With the \<^verbatim>\<open>g\<close> flag each
  search starts where the last match ended and tries every position from there;
  \<^verbatim>\<open>^\<close> holds at offset 0 and after a line terminator. \<open>bol\<close> says whether the current
  position is such a line start, \<open>i\<close> is its offset. A match is recorded as its index,
  \<^verbatim>\<open>match[0]\<close>, \<^verbatim>\<open>match[2]\<close> and \<^verbatim>\<open>match[3]\<close>.
\<close>

type_synonym def_match = "nat \<times> string \<times> string \<times> string"

function exec_defs :: "bool \<Rightarrow> nat \<Rightarrow> string \<Rightarrow> def_match list" where
  "exec_defs bol i s =
     (case (if bol then match_def s else None) of
        Some (m2, m3, rest) \<Rightarrow>
          (let m0 = take (length s - length rest) s
           in (i, m0, m2, m3) # exec_defs (is_lt (last m0)) (i + length m0) rest)
      | None \<Rightarrow> (case s of [] \<Rightarrow> [] | c # cs \<Rightarrow> exec_defs (is_lt c) (Suc i) cs))"
  by pat_completeness auto
termination
proof (relation "measure (\<lambda>(bol, i, s). length s)")
  show "wf (measure (\<lambda>(bol, i, s). length s))" by simp
next
  fix bol :: bool and i :: nat and s :: string and x2 m2 y m3 rest m0
  assume m: "(if bol then match_def s else None) = Some x2" and x2: "(m2, y) = x2"
    and y: "(m3, rest) = y"
  have cont: "length (continuation t) \<le> length t" for t
  proof (induction t rule: continuation.induct)
    case (1 t)
    have d: "length (dropWhile P u) \<le> length u" for P and u :: string
      by (rule length_dropWhile_le)
    show ?case
    proof (cases t)
      case Nil
      then show ?thesis by (simp add: continuation.simps)
    next
      case (Cons c w)
      have a: "length (continuation (dropWhile (\<lambda>c. \<not> is_lt c) (drop 4 w))) \<le> length w"
        if "c = CHR ''\<newline>''" "take 4 w = ''    ''"
        using "1.IH"(1) [OF Cons _ that(2)] that(1) d [of "\<lambda>c. \<not> is_lt c" "drop 4 w"] by simp
      have b: "length (continuation (dropWhile (\<lambda>c. \<not> is_lt c) (drop 1 w))) \<le> length w"
        if "c = CHR ''\<newline>''" "take 4 w \<noteq> ''    ''" "take 1 w = [CHR 0x09]"
        using "1.IH"(2) [OF Cons _ that(2) that(3)] that(1) d [of "\<lambda>c. \<not> is_lt c" "drop 1 w"]
        by simp
      have e: "length (continuation (dropWhile (\<lambda>c. \<not> is_lt c) (dropWhile is_ws w))) \<le> length w"
        if "c = CHR ''\<newline>''" "take 4 w \<noteq> ''    ''" "take 1 w \<noteq> [CHR 0x09]"
          "2 \<le> length (takeWhile is_ws w)"
        using "1.IH"(3) [OF Cons _ that(2) that(3) that(4)] that(1)
          d [of "\<lambda>c. \<not> is_lt c" "dropWhile is_ws w"] d [of is_ws w]
        by simp
      show ?thesis
        using a b e by (subst continuation.simps) (simp add: Cons le_SucI)
    qed
  qed
  have "length rest < length s"
  proof -
    from m x2 y have md: "match_def s = Some (m2, m3, rest)"
      by (simp split: if_splits)
    define s1 where "s1 = dropWhile is_ws s"
    have l1: "length s1 \<le> length s"
      unfolding s1_def by (rule length_dropWhile_le)
    from md obtain t where s1: "s1 = CHR ''['' # CHR ''^'' # t"
      unfolding match_def_def s1_def [symmetric]
      by (auto split: list.splits if_splits)
    define u where "u = dropWhile (\<lambda>c. c \<noteq> CHR '']'') t"
    have l2: "length u \<le> length t"
      unfolding u_def by (rule length_dropWhile_le)
    from md s1 obtain v where u: "u = CHR '']'' # CHR '':'' # v"
      and r: "rest = continuation (dropWhile (\<lambda>c. \<not> is_lt c) (dropWhile is_ws v))"
      unfolding match_def_def s1_def [symmetric] u_def
      by (auto simp: Let_def split: list.splits if_splits)
    have "length rest \<le> length (dropWhile (\<lambda>c. \<not> is_lt c) (dropWhile is_ws v))"
      unfolding r by (rule cont)
    also have "\<dots> \<le> length (dropWhile is_ws v)"
      by (rule length_dropWhile_le)
    also have "\<dots> \<le> length v"
      by (rule length_dropWhile_le)
    finally show ?thesis
      using l1 l2 s1 u by simp
  qed
  then show "((is_lt (last m0), i + length m0, rest), bol, i, s)
      \<in> measure (\<lambda>(bol, i, s). length s)"
    by simp
next
  fix bol :: bool and i :: nat and s :: string and c cs
  assume "s = c # cs"
  then show "((is_lt c, Suc i, cs), bol, i, s) \<in> measure (\<lambda>(bol, i, s). length s)"
    by simp
qed

declare exec_defs.simps [simp del]

text \<open>
  One attempt of \<^verbatim>\<open>/\[\^([^\]]+?)\](?!:)/g\<close>: group 1 and the text after the match.
\<close>

definition match_ref :: "string \<Rightarrow> (string \<times> string) option" where
  "match_ref s =
     (case s of
        c1 # c2 # t \<Rightarrow>
          if c1 = CHR ''['' \<and> c2 = CHR ''^'' then
            (let m1 = takeWhile (\<lambda>c. c \<noteq> CHR '']'') t;
                 u = dropWhile (\<lambda>c. c \<noteq> CHR '']'') t
             in if m1 = [] then None
                else (case u of
                        [] \<Rightarrow> None
                      | d # v \<Rightarrow>
                          if d = CHR '']'' \<and> (case v of [] \<Rightarrow> True | e # _ \<Rightarrow> e \<noteq> CHR '':'')
                          then Some (m1, v) else None))
          else None
      | _ \<Rightarrow> None)"

type_synonym ref_match = "nat \<times> string \<times> string"

function exec_refs :: "nat \<Rightarrow> string \<Rightarrow> ref_match list" where
  "exec_refs i s =
     (case match_ref s of
        Some (m1, rest) \<Rightarrow>
          (let m0 = take (length s - length rest) s
           in (i, m0, m1) # exec_refs (i + length m0) rest)
      | None \<Rightarrow> (case s of [] \<Rightarrow> [] | c # cs \<Rightarrow> exec_refs (Suc i) cs))"
  by pat_completeness auto
termination
proof (relation "measure (\<lambda>(i, s). length s)")
  show "wf (measure (\<lambda>(i, s). length s))" by simp
next
  fix i :: nat and s :: string and x2 m1 rest m0
  assume m: "match_ref s = Some x2" and x2: "(m1, rest) = x2"
  from m x2 obtain t where s: "s = CHR ''['' # CHR ''^'' # t"
    and u: "dropWhile (\<lambda>c. c \<noteq> CHR '']'') t = CHR '']'' # rest"
    unfolding match_ref_def
    by (auto simp: Let_def split: list.splits if_splits)
  have "length (dropWhile (\<lambda>c. c \<noteq> CHR '']'') t) \<le> length t"
    by (rule length_dropWhile_le)
  with s u have "length rest < length s" by simp
  then show "((i + length m0, rest), i, s) \<in> measure (\<lambda>(i, s). length s)"
    by simp
next
  fix i :: nat and s :: string and c cs
  assume "s = c # cs"
  then show "((Suc i, cs), i, s) \<in> measure (\<lambda>(i, s). length s)" by simp
qed

declare exec_refs.simps [simp del]

record ParseResult =
  definitions :: "ParsedDefinition list"
  references :: "ParsedReference list"

definition parseSourceContent :: "string \<Rightarrow> ParseResult" where
  "parseSourceContent content =
     \<lparr>definitions =
        map (\<lambda>(i, m0, m2, m3).
               \<lparr>start = i, endp = i + length m0, ref = trim m2, fullMatch = m0,
                defn = trim (unindent m3)\<rparr>)
            (exec_defs True 0 content),
      references =
        map (\<lambda>(i, m0, m1). \<lparr>start = i, endp = i + length m0, ref = trim m1, fullMatch = m0\<rparr>)
            (exec_refs 0 content)\<rparr>"

text \<open>
  \<^verbatim>\<open>parseFootnotesSimple\<close> runs the same pattern and fills a \<^verbatim>\<open>Map\<close>; its test
  \<^verbatim>\<open>if (match[2])\<close> asks whether the untrimmed group is the empty string.
\<close>

definition parseFootnotesSimple :: "string \<Rightarrow> (string, string) jsmap" where
  "parseFootnotesSimple content =
     fold (\<lambda>(i, m0, m2, m3) footnotesMap.
             if m2 \<noteq> [] then map_set (trim m2) (trim (unindent m3)) footnotesMap
             else footnotesMap)
          (exec_defs True 0 content) []"

section \<open>Settings and files\<close>

record CornellFootnoteSettings =
  syncOnSave :: bool
  deleteReferencesOnDefinitionDelete :: bool
  deleteDefinitionsOnReferenceDelete :: bool
  linkToSourceText :: string
  linkToCueText :: string
  enableCueNoteNavigation :: bool
  enableModifierClickHighlight :: bool
  moveFootnotesToEnd :: bool

text \<open>
  Of a \<^verbatim>\<open>TFile\<close> the plugin reads \<^verbatim>\<open>path\<close>, \<^verbatim>\<open>basename\<close> and \<^verbatim>\<open>parent?.path\<close>; \<open>parent\<close>
  is the path of the parent folder, \<open>None\<close> for a file without parent.
\<close>

record TFile =
  path :: string
  basename :: string
  parent :: "string option"

definition cueNoteSuffix :: string where
  "cueNoteSuffix = ''-cue''"

definition summaryNoteSuffix :: string where
  "summaryNoteSuffix = ''-summary''"

definition codeBlockProcessorId :: string where
  "codeBlockProcessorId = ''cornell-footnote-links''"

section \<open>The content generator\<close>

text \<open>
  \<^verbatim>\<open>s.replace(pattern, replacement)\<close> with a string pattern replaces the first occurrence
  only. In the replacement \<^verbatim>\<open>$$\<close> stands for a dollar sign, \<^verbatim>\<open>$&\<close> for the matched text,
  \<^verbatim>\<open>$`\<close> for the text before it and \<^verbatim>\<open>$'\<close> for the text after it; a string pattern has
  no groups, so every other dollar sign stands for itself.
\<close>

fun split_first :: "string \<Rightarrow> string \<Rightarrow> (string \<times> string) option" where
  "split_first pat [] = (if pat = [] then Some ([], []) else None)"
| "split_first pat (c # cs) =
     (if prefix pat (c # cs) then Some ([], drop (length pat) (c # cs))
      else map_option (\<lambda>(b, a). (c # b, a)) (split_first pat cs))"

fun get_substitution :: "string \<Rightarrow> string \<Rightarrow> string \<Rightarrow> string \<Rightarrow> string" where
  "get_substitution m b a (c1 # c2 # r) =
     (if c1 = CHR ''$'' \<and> c2 = CHR ''$'' then CHR ''$'' # get_substitution m b a r
      else if c1 = CHR ''$'' \<and> c2 = CHR ''&'' then m @ get_substitution m b a r
      else if c1 = CHR ''$'' \<and> c2 = CHR 0x60 then b @ get_substitution m b a r
      else if c1 = CHR ''$'' \<and> c2 = CHR 0x27 then a @ get_substitution m b a r
      else c1 # get_substitution m b a (c2 # r))"
| "get_substitution m b a r = r"

definition str_replace :: "string \<Rightarrow> string \<Rightarrow> string \<Rightarrow> string" where
  "str_replace s pat repl =
     (case split_first pat s of
        None \<Rightarrow> s
      | Some (b, a) \<Rightarrow> b @ get_substitution pat b a repl @ a)"

text \<open>
  \<^verbatim>\<open>content.match(re)\<close> for a pattern \<^verbatim>\<open>/^.../m\<close> without \<^verbatim>\<open>g\<close>: the index of the first
  line start where the pattern matches, if there is one. \<open>first_def_here\<close> is
  \<^verbatim>\<open>\s*\[\^.+?\]:\<close> and \<open>code_block_here\<close> is \<^verbatim>\<open>\s*```cornell-footnote-links\<close>; in the
  first, \<^verbatim>\<open>.+?\<close> takes at least one character, stays on its line and stops at the first
  \<^verbatim>\<open>]:\<close> it can reach.
\<close>

fun lazy_close :: "string \<Rightarrow> bool" where
  "lazy_close [] = False"
| "lazy_close (c # cs) = (\<not> is_lt c \<and> (prefix '']:'' cs \<or> lazy_close cs))"

definition first_def_here :: "string \<Rightarrow> bool" where
  "first_def_here s =
     (case dropWhile is_ws s of
        c1 # c2 # t \<Rightarrow> c1 = CHR ''['' \<and> c2 = CHR ''^'' \<and> lazy_close t
      | _ \<Rightarrow> False)"

definition code_block_here :: "string \<Rightarrow> bool" where
  "code_block_here s = prefix (''```'' @ codeBlockProcessorId) (dropWhile is_ws s)"

fun match_index :: "(string \<Rightarrow> bool) \<Rightarrow> bool \<Rightarrow> nat \<Rightarrow> string \<Rightarrow> nat option" where
  "match_index p bol i [] = (if bol \<and> p [] then Some i else None)"
| "match_index p bol i (c # cs) =
     (if bol \<and> p (c # cs) then Some i else match_index p (is_lt c) (Suc i) cs)"

text \<open>One rendered definition, \<^verbatim>\<open>`[^${ref}]: ${def}`\<close>.\<close>

definition render_def :: "string \<times> string \<Rightarrow> string" where
  "render_def e = ''[^'' @ fst e @ '']: '' @ snd e"

text \<open>
  \<open>lc a b\<close> stands for
  \<^verbatim>\<open>a.localeCompare(b, undefined, { numeric: true, sensitivity: 'base' })\<close>, the collation of
  the host, which the plugin does not define: it is a parameter of every function that
  sorts.
\<close>

definition sorted_entries ::
  "(string \<Rightarrow> string \<Rightarrow> int) \<Rightarrow> (string, string) jsmap \<Rightarrow> (string \<times> string) list" where
  "sorted_entries lc m = sort_by (\<lambda>a b. lc (fst a) (fst b)) m"

text \<open>
  The offset of the first definition line or code block start of the Cue note, the
  length of the note if it has neither: where its header ends.
\<close>

definition firstElementIdx :: "string \<Rightarrow> nat" where
  "firstElementIdx currentContent =
     (let firstDefMatch = match_index first_def_here True 0 currentContent;
          firstCbMatch = match_index code_block_here True 0 currentContent;
          firstElementIdx0 =
            (case firstDefMatch of Some i \<Rightarrow> i | None \<Rightarrow> length currentContent)
      in case firstCbMatch of
           Some j \<Rightarrow> if j < firstElementIdx0 then j else firstElementIdx0
         | None \<Rightarrow> firstElementIdx0)"

definition generateCueContent ::
  "(string \<Rightarrow> string \<Rightarrow> int) \<Rightarrow> CornellFootnoteSettings \<Rightarrow> string \<Rightarrow> TFile
     \<Rightarrow> (string, string) jsmap \<Rightarrow> string" where
  "generateCueContent lc settings currentContent sourceNoteFile footnotes =
     (let linkToSource =
            str_replace (linkToSourceText settings) ''{{sourceNote}}'' (basename sourceNoteFile);
          extractedHeader0 = trimEnd (take (firstElementIdx currentContent) currentContent);
          extractedHeader =
            (if \<not> str_includes extractedHeader0 linkToSource
             then (if extractedHeader0 \<noteq> []
                   then linkToSource @ ''\<newline>\<newline>'' @ extractedHeader0
                   else linkToSource)
             else extractedHeader0);
          finalHeader =
            (if extractedHeader \<noteq> [] then extractedHeader @ ''\<newline>\<newline>'' else []);
          fnsText =
            (if footnotes \<noteq> []
             then join ''\<newline>\<newline>'' (map render_def (sorted_entries lc footnotes))
             else []);
          codeBlockSection =
            (if footnotes \<noteq> []
             then ''\<newline>\<newline>```'' @ codeBlockProcessorId @ ''\<newline>```\<newline>''
             else []);
          newContent = trimEnd (finalHeader @ fnsText @ codeBlockSection) @ ''\<newline>''
      in collapseNewlines newContent)"

section \<open>Rebuilding the Source note\<close>

text \<open>
  The pattern \<^verbatim>\<open>\[\^(r1|...|rn)\](?!:)\<close> built from the escaped references: after
  \<^verbatim>\<open>[^\<close> the alternatives are tried in order, each as literal text followed by \<^verbatim>\<open>]\<close>
  and by something other than a colon. \<open>match_alt\<close> returns the text after the match.
\<close>

fun match_alt :: "string list \<Rightarrow> string \<Rightarrow> string option" where
  "match_alt [] t = None"
| "match_alt (r # rs) t =
     (if prefix (r @ '']'') t
         \<and> (case drop (length r + 1) t of [] \<Rightarrow> True | e # _ \<Rightarrow> e \<noteq> CHR '':'')
      then Some (drop (length r + 1) t)
      else match_alt rs t)"

text \<open>\<^verbatim>\<open>bodyContent.replace(refsToDeleteRegex, '')\<close> with the \<^verbatim>\<open>g\<close> flag.\<close>

function remove_refs :: "string list \<Rightarrow> string \<Rightarrow> string" where
  "remove_refs rs s =
     (case s of
        [] \<Rightarrow> []
      | c # cs \<Rightarrow>
          (case (if prefix ''[^'' s then match_alt rs (drop 2 s) else None) of
             Some rest \<Rightarrow> remove_refs rs rest
           | None \<Rightarrow> c # remove_refs rs cs))"
  by pat_completeness auto
termination
proof (relation "measure (\<lambda>(rs, s). length s)")
  show "wf (measure (\<lambda>(rs, s). length s))" by simp
next
  fix rs :: "string list" and s :: string and c cs rest
  assume s: "s = c # cs"
    and m: "(if prefix ''[^'' s then match_alt rs (drop 2 s) else None) = Some rest"
  have a: "match_alt qs t = Some r \<Longrightarrow> length r \<le> length t" for qs t r
    by (induction qs) (auto split: if_splits)
  from m have p: "prefix ''[^'' s" and "match_alt rs (drop 2 s) = Some rest"
    by (auto split: if_splits)
  then have "length rest \<le> length (drop 2 s)"
    by (intro a)
  moreover from p have "2 \<le> length s"
    by (auto simp: prefix_def)
  ultimately show "((rs, rest), rs, s) \<in> measure (\<lambda>(rs, s). length s)"
    by simp
next
  fix rs :: "string list" and s :: string and c cs
  assume "s = c # cs"
  then show "((rs, cs), rs, s) \<in> measure (\<lambda>(rs, s). length s)" by simp
qed

declare remove_refs.simps [simp del]

definition updateSourceNoteContentRebuild ::
  "(string \<Rightarrow> string \<Rightarrow> int) \<Rightarrow> string \<Rightarrow> (string, string) jsmap \<Rightarrow> bool \<Rightarrow> bool \<Rightarrow> string" where
  "updateSourceNoteContentRebuild lc sourceContent footnotesFromCue deleteReferences moveToEnd =
     (let sourceDefs = definitions (parseSourceContent sourceContent);
          refsDefinedInCue = map fst footnotesFromCue;
          (finalDefinitions0, refsToDeleteCompletely) =
            fold (\<lambda>d (fin, del).
                    if ref d \<in> set refsDefinedInCue
                    then (map_set (ref d) (the (map_get footnotesFromCue (ref d))) fin, del)
                    else (fin, set_add (ref d) del))
                 sourceDefs ([], []);
          finalDefinitions =
            fold (\<lambda>(cueRef, cueDef) fin.
                    if \<not> list_ex (\<lambda>d. ref d = cueRef) sourceDefs
                    then map_set cueRef cueDef fin else fin)
                 footnotesFromCue finalDefinitions0;
          sortedDefsToRemove = sort_by (\<lambda>a b. int (start b) - int (start a)) sourceDefs;
          bodyContent0 =
            fold (\<lambda>d body. take (start d) body @ drop (endp d) body)
                 sortedDefsToRemove sourceContent;
          bodyContent1 = trimEnd bodyContent0;
          bodyContent =
            (if deleteReferences \<and> refsToDeleteCompletely \<noteq> []
             then remove_refs refsToDeleteCompletely bodyContent1
             else bodyContent1);
          finalDefinitionsText =
            (if finalDefinitions \<noteq> []
             then join ''\<newline>\<newline>'' (map render_def (sorted_entries lc finalDefinitions))
             else []);
          newSourceContent0 =
            (if finalDefinitionsText \<noteq> []
             then (if moveToEnd
                   then bodyContent @ ''\<newline>\<newline>'' @ finalDefinitionsText
                   else bodyContent @ ''\<newline>\<newline>'' @ finalDefinitionsText)
             else bodyContent);
          newSourceContent = trimEnd newSourceContent0 @ ''\<newline>''
      in collapseNewlines newSourceContent)"

text \<open>
  A comparison by code units, to have a comparator at hand where a concrete run is
  evaluated. Every such run below sorts at most one entry, or entries that any
  collation orders the same way.
\<close>

fun codeunit_compare :: "string \<Rightarrow> string \<Rightarrow> int" where
  "codeunit_compare [] [] = 0"
| "codeunit_compare [] (y # ys) = - 1"
| "codeunit_compare (x # xs) [] = 1"
| "codeunit_compare (x # xs) (y # ys) =
     (if of_char x < (of_char y :: nat) then - 1
      else if of_char y < (of_char x :: nat) then 1
      else codeunit_compare xs ys)"

section \<open>Paths and roles\<close>

text \<open>
  \<^verbatim>\<open>normalizePath\<close> is a function of the host, Obsidian, not of the plugin. Its
  implementation collapses every run of slashes and backslashes into one slash, removes
  the slashes at both ends, writes \<^verbatim>\<open>/\<close> for the empty path, replaces a non-breaking
  space by a space and normalises to NFC (the identity on the code units \<open>0..255\<close>).
\<close>

definition is_sep :: "char \<Rightarrow> bool" where
  "is_sep c \<longleftrightarrow> c = CHR ''/'' \<or> c = CHR 0x5C"

function collapse_separators :: "string \<Rightarrow> string" where
  "collapse_separators s =
     (case s of
        [] \<Rightarrow> []
      | c # cs \<Rightarrow>
          if is_sep c then CHR ''/'' # collapse_separators (dropWhile is_sep cs)
          else c # collapse_separators cs)"
  by pat_completeness auto
termination
proof (relation "measure length")
  show "wf (measure length)" by simp
next
  fix s :: string and c cs
  assume "s = c # cs"
  moreover have "length (dropWhile is_sep cs) \<le> length cs"
    by (rule length_dropWhile_le)
  ultimately show "(dropWhile is_sep cs, s) \<in> measure length" by simp
qed simp_all

declare collapse_separators.simps [simp del]

definition strip_slashes :: "string \<Rightarrow> string" where
  "strip_slashes s =
     rev (dropWhile (\<lambda>c. c = CHR ''/'') (rev (dropWhile (\<lambda>c. c = CHR ''/'') s)))"

definition normalizePath :: "string \<Rightarrow> string" where
  "normalizePath p =
     (let p1 = strip_slashes (collapse_separators p);
          p2 = (if p1 = [] then ''/'' else p1)
      in map (\<lambda>c. if c = CHR 0xA0 then CHR '' '' else c) p2)"

definition isCueNote :: "string \<Rightarrow> bool" where
  "isCueNote filePath =
     (if filePath \<noteq> [] then suffix (cueNoteSuffix @ ''.md'') (normalizePath filePath) else False)"

definition isSummaryNote :: "string \<Rightarrow> bool" where
  "isSummaryNote filePath =
     (if filePath \<noteq> [] then suffix (summaryNoteSuffix @ ''.md'') (normalizePath filePath)
      else False)"

definition getCueNotePath :: "TFile \<Rightarrow> string" where
  "getCueNotePath sourceFile =
     (let cueFilename = basename sourceFile @ cueNoteSuffix @ ''.md'';
          folderPath = (case parent sourceFile of Some p \<Rightarrow> p | None \<Rightarrow> ''/'');
          finalPath = (if folderPath = ''/'' \<or> folderPath = [] then cueFilename
                       else folderPath @ ''/'' @ cueFilename)
      in normalizePath finalPath)"

definition getSummaryNotePath :: "TFile \<Rightarrow> string" where
  "getSummaryNotePath sourceFile =
     (let summaryFilename = basename sourceFile @ summaryNoteSuffix @ ''.md'';
          folderPath = (case parent sourceFile of Some p \<Rightarrow> p | None \<Rightarrow> ''/'');
          finalPath = (if folderPath = ''/'' \<or> folderPath = [] then summaryFilename
                       else folderPath @ ''/'' @ summaryFilename)
      in normalizePath finalPath)"




section \<open>The sync coordinator\<close>

text \<open>
  The plugin object with the vault it works on. \<open>vault\<close> lists the Markdown files with
  their contents (a folder and a missing path are the same to the code below: neither
  is a \<^verbatim>\<open>TFile\<close>); \<open>stored\<close> is what \<^verbatim>\<open>saveData\<close> wrote last.
\<close>

record CornellNoteInfo =
  sourcePath :: string
  cuePath :: "string option"
  summaryPath :: "string option"
  lastSyncSourceToCue :: "nat option"
  lastSyncCueToSource :: "nat option"

record Plugin =
  settings :: CornellFootnoteSettings
  isSyncing :: bool
  noteInfoMap :: "(string, CornellNoteInfo) jsmap"
  vault :: "(TFile \<times> string) list"
  stored :: "(string, CornellNoteInfo) jsmap"

text \<open>
  A rejected promise or a thrown value is an \<open>exn\<close>. The host decides which storage
  call fails: \<open>fails\<close> says so for each call site of the two sync functions. \<open>now\<close> is
  \<^verbatim>\<open>Date.now()\<close> and \<open>localeCompare\<close> the collation.
\<close>

datatype exn = Exn string

datatype io_site =
    ReadSource | ReadCue | ReadCueCurrent | ModifyCue | ModifySource | SaveData | SaveDataGuess

record Host =
  localeCompare :: "string \<Rightarrow> string \<Rightarrow> int"
  fails :: "io_site \<Rightarrow> bool"
  now :: nat

definition getAbstractFileByPath :: "Plugin \<Rightarrow> string \<Rightarrow> TFile option" where
  "getAbstractFileByPath st p = map_option fst (find (\<lambda>e. path (fst e) = p) (vault st))"

definition cachedRead :: "Host \<Rightarrow> io_site \<Rightarrow> Plugin \<Rightarrow> TFile \<Rightarrow> exn + string" where
  "cachedRead h site st file =
     (if fails h site then Inl (Exn ''read failed'')
      else (case find (\<lambda>e. path (fst e) = path file) (vault st) of
              Some e \<Rightarrow> Inr (snd e)
            | None \<Rightarrow> Inl (Exn ''no such file'')))"

definition vault_modify :: "Host \<Rightarrow> io_site \<Rightarrow> Plugin \<Rightarrow> TFile \<Rightarrow> string \<Rightarrow> exn + Plugin" where
  "vault_modify h site st file data =
     (if fails h site then Inl (Exn ''write failed'')
      else if find (\<lambda>e. path (fst e) = path file) (vault st) = None then Inl (Exn ''no such file'')
      else Inr (st\<lparr>vault :=
                  map (\<lambda>e. if path (fst e) = path file then (fst e, data) else e) (vault st)\<rparr>))"

definition saveData :: "Host \<Rightarrow> io_site \<Rightarrow> Plugin \<Rightarrow> exn + Plugin" where
  "saveData h site st =
     (if fails h site then Inl (Exn ''save failed'') else Inr (st\<lparr>stored := noteInfoMap st\<rparr>))"

definition getOrCreateNoteInfo :: "TFile \<Rightarrow> Plugin \<Rightarrow> CornellNoteInfo \<times> Plugin" where
  "getOrCreateNoteInfo sourceNoteFile st =
     (case map_get (noteInfoMap st) (path sourceNoteFile) of
        Some info \<Rightarrow> (info, st)
      | None \<Rightarrow>
          (let cueFile = getAbstractFileByPath st (getCueNotePath sourceNoteFile);
               summaryFile = getAbstractFileByPath st (getSummaryNotePath sourceNoteFile);
               info = \<lparr>sourcePath = path sourceNoteFile,
                       cuePath = map_option path cueFile,
                       summaryPath = map_option path summaryFile,
                       lastSyncSourceToCue = None,
                       lastSyncCueToSource = None\<rparr>
           in (info, st\<lparr>noteInfoMap := map_set (path sourceNoteFile) info (noteInfoMap st)\<rparr>)))"

text \<open>
  Step 3 of \<^verbatim>\<open>syncSourceToCue\<close>: the definitions the Cue note is to hold, and whether
  they differ from the ones it holds now (which only goes to the log).
\<close>

definition finalCueFootnotes ::
  "CornellFootnoteSettings \<Rightarrow> string \<Rightarrow> (string, string) jsmap
     \<Rightarrow> (string, string) jsmap \<times> bool" where
  "finalCueFootnotes st sourceContent cueFootnotesMap =
     (let sourceDefs = definitions (parseSourceContent sourceContent);
          sourceDefinitionsMap = map_new (map (\<lambda>d. (ref d, defn d)) sourceDefs);
          sourceDefRefs = map fst sourceDefinitionsMap;
          (copied, changed1) =
            fold (\<lambda>e (fin, ch).
                    (map_set (fst e) (snd e) fin,
                     ch \<or> \<not> map_has cueFootnotesMap (fst e)
                        \<or> map_option trim (map_get cueFootnotesMap (fst e)) \<noteq> Some (trim (snd e))))
                 sourceDefinitionsMap ([], False);
          changed2 =
            fold (\<lambda>r ch. ch \<or> r \<notin> set sourceDefRefs) (map fst cueFootnotesMap) changed1
      in if deleteDefinitionsOnReferenceDelete st
         then (let sourceRefs = references (parseSourceContent sourceContent);
                   presentSourceRefKeys = map ref sourceRefs
               in fold (\<lambda>e (fin, ch).
                          if fst e \<notin> set presentSourceRefKeys
                          then (map_delete (fst e) fin, ch \<or> map_has fin (fst e))
                          else (fin, ch))
                       copied (copied, changed2))
         else (copied, changed2))"

text \<open>
  \<^verbatim>\<open>updateCueNoteContent\<close> has a \<^verbatim>\<open>try\<close> of its own: a failed read or write is logged and
  the answer is \<^verbatim>\<open>false\<close>.
\<close>

definition updateCueNoteContent ::
  "Host \<Rightarrow> TFile \<Rightarrow> TFile \<Rightarrow> (string, string) jsmap \<Rightarrow> Plugin \<Rightarrow> bool \<times> Plugin" where
  "updateCueNoteContent h cueNoteFile sourceNoteFile footnotes st =
     (case cachedRead h ReadCueCurrent st cueNoteFile of
        Inl e \<Rightarrow> (False, st)
      | Inr currentContent \<Rightarrow>
          (let newContent =
                 generateCueContent (localeCompare h) (settings st) currentContent sourceNoteFile footnotes
           in if currentContent \<noteq> newContent
              then (case vault_modify h ModifyCue st cueNoteFile newContent of
                      Inl e \<Rightarrow> (False, st)
                    | Inr st' \<Rightarrow> (True, st'))
              else (False, st)))"

text \<open>
  The \<^verbatim>\<open>try\<close> block of \<^verbatim>\<open>syncSourceToCue\<close>: it ends with a thrown value (\<open>Inl\<close>) or
  normally, and leaves the plugin in the state it had reached.
\<close>

definition syncSourceToCue_try :: "Host \<Rightarrow> TFile \<Rightarrow> Plugin \<Rightarrow> (exn + unit) \<times> Plugin" where
  "syncSourceToCue_try h sourceNoteFile st =
     (case cachedRead h ReadSource st sourceNoteFile of
        Inl e \<Rightarrow> (Inl e, st)
      | Inr sourceContent \<Rightarrow>
          (case getAbstractFileByPath st (getCueNotePath sourceNoteFile) of
             None \<Rightarrow>
               (let (info, st1) = getOrCreateNoteInfo sourceNoteFile st
                in if cuePath info \<noteq> None
                   then (let st2 = st1\<lparr>noteInfoMap :=
                                    map_set (path sourceNoteFile) (info\<lparr>cuePath := None\<rparr>)
                                      (noteInfoMap st1)\<rparr>
                         in case saveData h SaveData st2 of
                              Inl e \<Rightarrow> (Inl e, st2)
                            | Inr st3 \<Rightarrow> (Inr (), st3\<lparr>isSyncing := False\<rparr>))
                   else (Inr (), st1\<lparr>isSyncing := False\<rparr>))
           | Some cueFileInstance \<Rightarrow>
               (case cachedRead h ReadCue st cueFileInstance of
                  Inl e \<Rightarrow> (Inl e, st)
                | Inr currentCueContent \<Rightarrow>
                    (let cueFootnotesMap = parseFootnotesSimple currentCueContent;
                         (final, definitionsChanged) =
                           finalCueFootnotes (settings st) sourceContent cueFootnotesMap;
                         (updated, st1) =
                           updateCueNoteContent h cueFileInstance sourceNoteFile final st;
                         (info, st2) = getOrCreateNoteInfo sourceNoteFile st1;
                         pathChanged = (cuePath info \<noteq> Some (path cueFileInstance));
                         info1 = (if pathChanged
                                  then info\<lparr>cuePath := Some (path cueFileInstance)\<rparr> else info);
                         info2 = (if updated
                                  then info1\<lparr>lastSyncSourceToCue := Some (now h)\<rparr> else info1)
                     in if pathChanged \<or> updated
                        then (let st3 = st2\<lparr>noteInfoMap :=
                                         map_set (path sourceNoteFile) info2 (noteInfoMap st2)\<rparr>
                              in case saveData h SaveData st3 of
                                   Inl e \<Rightarrow> (Inl e, st3)
                                 | Inr st4 \<Rightarrow> (Inr (), st4))
                        else (Inr (), st2)))))"

text \<open>
  \<^verbatim>\<open>syncSourceToCue\<close>. The first component of the result is the value thrown to the
  caller, \<open>None\<close> when the call returns. The \<^verbatim>\<open>catch\<close> clause writes to the console and
  shows a notice; the \<^verbatim>\<open>finally\<close> clause waits and clears the flag.
\<close>

definition syncSourceToCue :: "Host \<Rightarrow> TFile \<Rightarrow> Plugin \<Rightarrow> exn option \<times> Plugin" where
  "syncSourceToCue h sourceNoteFile st =
     (if isSyncing st then (None, st)
      else if isCueNote (path sourceNoteFile) \<or> isSummaryNote (path sourceNoteFile)
      then (None, st)
      else (let st1 = st\<lparr>isSyncing := True\<rparr>;
                (r, st2) = syncSourceToCue_try h sourceNoteFile st1;
                st3 = (case r of Inl e \<Rightarrow> st2 | Inr u \<Rightarrow> st2)
            in (None, st3\<lparr>isSyncing := False\<rparr>)))"

text \<open>
  \<^verbatim>\<open>getSourceNoteFileFromDerived\<close>: first the note-info table, then the guess from the
  name of the derived note. \<^verbatim>\<open>this.saveData().catch(...)\<close> swallows a failed save.
\<close>

fun lookup_derived :: "Plugin \<Rightarrow> string \<Rightarrow> CornellNoteInfo list \<Rightarrow> TFile option" where
  "lookup_derived st p [] = None"
| "lookup_derived st p (info # infos) =
     (if cuePath info = Some p \<or> summaryPath info = Some p
      then (case getAbstractFileByPath st (sourcePath info) of
              Some sourceFile \<Rightarrow> Some sourceFile
            | None \<Rightarrow> lookup_derived st p infos)
      else lookup_derived st p infos)"

definition after_last_slash :: "string \<Rightarrow> string" where
  "after_last_slash s = rev (takeWhile (\<lambda>c. c \<noteq> CHR ''/'') (rev s))"

definition before_last_slash :: "string \<Rightarrow> string" where
  "before_last_slash s = rev (drop 1 (dropWhile (\<lambda>c. c \<noteq> CHR ''/'') (rev s)))"

definition remove_at_end :: "string \<Rightarrow> string \<Rightarrow> string" where
  "remove_at_end sfx s = (if suffix sfx s then take (length s - length sfx) s else s)"

definition getSourceNoteFileFromDerived ::
  "Host \<Rightarrow> string \<Rightarrow> Plugin \<Rightarrow> TFile option \<times> Plugin" where
  "getSourceNoteFileFromDerived h derivedPath st =
     (let normalizedDerivedPath = normalizePath derivedPath
      in case lookup_derived st normalizedDerivedPath (map snd (noteInfoMap st)) of
           Some sourceFile \<Rightarrow> (Some sourceFile, st)
         | None \<Rightarrow>
             (let derivedFilename = after_last_slash normalizedDerivedPath;
                  folder0 = before_last_slash normalizedDerivedPath;
                  derivedFolder = (if folder0 = [] then ''/'' else folder0);
                  sourceBasename =
                    (if isCueNote normalizedDerivedPath
                     then Some (remove_at_end (cueNoteSuffix @ ''.md'') derivedFilename)
                     else if isSummaryNote normalizedDerivedPath
                     then Some (remove_at_end (summaryNoteSuffix @ ''.md'') derivedFilename)
                     else None)
              in case sourceBasename of
                   None \<Rightarrow> (None, st)
                 | Some sb \<Rightarrow>
                     if sb = [] then (None, st)
                     else
                       (let sourceFilename = sb @ ''.md'';
                            parent0 = before_last_slash derivedFolder;
                            parentFolder = (if parent0 = [] then ''/'' else parent0);
                            potentialPaths =
                              normalizePath (derivedFolder @ ''/'' @ sourceFilename)
                              # (if derivedFolder \<noteq> ''/''
                                 then [normalizePath (parentFolder @ ''/'' @ sourceFilename),
                                       normalizePath (''/'' @ sourceFilename)]
                                 else []);
                            uniquePaths = fold set_add potentialPaths [];
                            found = List.map_filter
                                      (\<lambda>p. case getAbstractFileByPath st p of
                                              Some file \<Rightarrow>
                                                if basename file = sb then Some file else None
                                            | None \<Rightarrow> None)
                                      uniquePaths
                        in case found of
                             [] \<Rightarrow> (None, st)
                           | file # _ \<Rightarrow>
                               (let info0 =
                                      (case map_get (noteInfoMap st) (path file) of
                                         Some info \<Rightarrow> info
                                       | None \<Rightarrow>
                                           \<lparr>sourcePath = path file, cuePath = None,
                                            summaryPath = None, lastSyncSourceToCue = None,
                                            lastSyncCueToSource = None\<rparr>);
                                    info1 = (if isCueNote normalizedDerivedPath
                                             then info0\<lparr>cuePath := Some normalizedDerivedPath\<rparr>
                                             else info0);
                                    info2 = (if isSummaryNote normalizedDerivedPath
                                             then info1\<lparr>summaryPath := Some normalizedDerivedPath\<rparr>
                                             else info1);
                                    st1 = st\<lparr>noteInfoMap :=
                                              map_set (path file) info2 (noteInfoMap st)\<rparr>;
                                    st2 = (case saveData h SaveDataGuess st1 of
                                             Inl e \<Rightarrow> st1
                                           | Inr st' \<Rightarrow> st')
                                in (Some file, st2)))))"

definition syncCueToSource_try :: "Host \<Rightarrow> TFile \<Rightarrow> Plugin \<Rightarrow> (exn + unit) \<times> Plugin" where
  "syncCueToSource_try h cueNoteFile st =
     (case cachedRead h ReadCue st cueNoteFile of
        Inl e \<Rightarrow> (Inl e, st)
      | Inr cueContent \<Rightarrow>
          (let footnotesFromCue = parseFootnotesSimple cueContent;
               (found, st1) = getSourceNoteFileFromDerived h (path cueNoteFile) st
           in case found of
                None \<Rightarrow> (Inr (), st1\<lparr>isSyncing := False\<rparr>)
              | Some sourceNoteFile \<Rightarrow>
                  (case cachedRead h ReadSource st1 sourceNoteFile of
                     Inl e \<Rightarrow> (Inl e, st1)
                   | Inr sourceContent \<Rightarrow>
                       (let newSourceContent =
                              updateSourceNoteContentRebuild (localeCompare h) sourceContent footnotesFromCue
                                (deleteReferencesOnDefinitionDelete (settings st1))
                                (moveFootnotesToEnd (settings st1));
                            mapNeedsSave = (newSourceContent \<noteq> sourceContent)
                        in case (if mapNeedsSave
                                 then vault_modify h ModifySource st1 sourceNoteFile newSourceContent
                                 else Inr st1) of
                             Inl e \<Rightarrow> (Inl e, st1)
                           | Inr st2 \<Rightarrow>
                               (let (info, st3) = getOrCreateNoteInfo sourceNoteFile st2;
                                    pathChanged = (cuePath info \<noteq> Some (path cueNoteFile));
                                    info1 = (if pathChanged
                                             then info\<lparr>cuePath := Some (path cueNoteFile)\<rparr>
                                             else info);
                                    info2 = (if mapNeedsSave
                                             then info1\<lparr>lastSyncCueToSource := Some (now h)\<rparr>
                                             else info1)
                                in if pathChanged \<or> mapNeedsSave
                                   then (let st4 = st3\<lparr>noteInfoMap :=
                                                    map_set (path sourceNoteFile) info2
                                                      (noteInfoMap st3)\<rparr>
                                         in case saveData h SaveData st4 of
                                              Inl e \<Rightarrow> (Inl e, st4)
                                            | Inr st5 \<Rightarrow> (Inr (), st5))
                                   else (Inr (), st3))))))"

definition syncCueToSource :: "Host \<Rightarrow> TFile \<Rightarrow> Plugin \<Rightarrow> exn option \<times> Plugin" where
  "syncCueToSource h cueNoteFile st =
     (if isSyncing st then (None, st)
      else if \<not> isCueNote (path cueNoteFile) then (None, st)
      else (let st1 = st\<lparr>isSyncing := True\<rparr>;
                (r, st2) = syncCueToSource_try h cueNoteFile st1;
                st3 = (case r of Inl e \<Rightarrow> st2 | Inr u \<Rightarrow> st2)
            in (None, st3\<lparr>isSyncing := False\<rparr>)))"

section \<open>Normalised newlines\<close>

text \<open>
  \<open>newline_normalized r\<close>: the text holds no run of three newlines and ends with one
  newline that no white space precedes.
\<close>

definition newline_normalized :: "string \<Rightarrow> bool" where
  "newline_normalized r \<longleftrightarrow>
     \<not> str_includes r ''\<newline>\<newline>\<newline>'' \<and> r \<noteq> [] \<and> last r = CHR ''\<newline>''
     \<and> (butlast r = [] \<or> \<not> is_ws (last (butlast r)))"

section \<open>Texts in which every opening is a definition\<close>

text \<open>
  \<open>closes t\<close>: the first \<^verbatim>\<open>]\<close> of \<open>t\<close> exists and a colon follows it. \<open>guarded s\<close>: wherever
  \<^verbatim>\<open>[^\<close> occurs in \<open>s\<close>, the text after it closes in this way, so the occurrence starts a
  definition and not a reference.
\<close>

definition closes :: "string \<Rightarrow> bool" where
  "closes t =
     (case dropWhile (\<lambda>c. c \<noteq> CHR '']'') t of
        d1 # d2 # v \<Rightarrow> d2 = CHR '':''
      | _ \<Rightarrow> False)"

fun guarded :: "string \<Rightarrow> bool" where
  "guarded [] = True"
| "guarded (c # cs) = ((c = CHR ''['' \<and> take 1 cs = ''^'' \<longrightarrow> closes (drop 1 cs)) \<and> guarded cs)"

section \<open>Line starts where a pattern does not match\<close>

text \<open>
  \<open>no_match_before p bol a b\<close>: in the text \<open>a @ b\<close>, whose first position is a line start
  when \<open>bol\<close> holds, the pattern \<open>p\<close> matches at no line start that lies in \<open>a\<close>.
  \<open>bol_after bol a\<close> tells whether the position after \<open>a\<close> is a line start.
\<close>

fun no_match_before :: "(string \<Rightarrow> bool) \<Rightarrow> bool \<Rightarrow> string \<Rightarrow> string \<Rightarrow> bool" where
  "no_match_before P bol [] b = True"
| "no_match_before P bol (c # cs) b =
     (\<not> (bol \<and> P (c # cs @ b)) \<and> no_match_before P (is_lt c) cs b)"

definition bol_after :: "bool \<Rightarrow> string \<Rightarrow> bool" where
  "bol_after bol a = (if a = [] then bol else is_lt (last a))"

section \<open>Notes written line by line\<close>








section \<open>A small vault\<close>

text \<open>
  The settings the plugin starts with, the two back-link texts written without the arrow
  emoji (which lies outside the code units modelled here), and a Source note with its
  Cue note in one folder, for the concrete runs below.
\<close>

definition plain_settings :: CornellFootnoteSettings where
  "plain_settings =
     \<lparr>syncOnSave = False,
      deleteReferencesOnDefinitionDelete = False,
      deleteDefinitionsOnReferenceDelete = False,
      linkToSourceText = ''[[{{sourceNote}}|Back to Source]]'',
      linkToCueText = ''[[{{cueNote}}|Back to Cue]]'',
      enableCueNoteNavigation = True,
      enableModifierClickHighlight = True,
      moveFootnotesToEnd = True\<rparr>"

definition note_file :: TFile where
  "note_file = \<lparr>path = ''dir/Note.md'', basename = ''Note'', parent = Some ''dir''\<rparr>"

definition cue_file :: TFile where
  "cue_file = \<lparr>path = ''dir/Note-cue.md'', basename = ''Note-cue'', parent = Some ''dir''\<rparr>"

definition quiet_host :: Host where
  "quiet_host = \<lparr>localeCompare = codeunit_compare, fails = (\<lambda>site. False), now = 1000\<rparr>"

definition two_notes :: "CornellFootnoteSettings \<Rightarrow> string \<Rightarrow> string \<Rightarrow> Plugin" where
  "two_notes s sourceContent cueContent =
     \<lparr>settings = s, isSyncing = False, noteInfoMap = [],
      vault = [(note_file, sourceContent), (cue_file, cueContent)], stored = []\<rparr>"

section \<open>Properties of the map model\<close>

lemma map_of_map_set: "map_of (map_set k v m) = (map_of m)(k \<mapsto> v)"
  by (induction m) (auto simp: fun_eq_iff)

lemma keys_map_set: "fst ` set (map_set k v m) = insert k (fst ` set m)"
  by (induction m) auto

lemma distinct_map_set: "distinct (map fst m) \<Longrightarrow> distinct (map fst (map_set k v m))"
  by (induction m) (auto simp: keys_map_set)

lemma distinct_fold_map_set:
  "distinct (map fst m) \<Longrightarrow> distinct (map fst (fold (\<lambda>e m. map_set (fst e) (snd e) m) es m))"
  by (induction es arbitrary: m) (auto simp: distinct_map_set)

lemma keys_fold_map_set:
  "fst ` set (fold (\<lambda>e m. map_set (fst e) (snd e) m) es m) = fst ` set es \<union> fst ` set m"
  by (induction es arbitrary: m) (auto simp: keys_map_set)

lemma map_of_fold_map_set:
  "map_of (fold (\<lambda>e m. map_set (fst e) (snd e) m) es m) = map_of m ++ map_of (rev es)"
proof (induction es arbitrary: m)
  case Nil
  then show ?case by simp
next
  case (Cons e es)
  show ?case
    by (simp add: Cons.IH map_of_map_set map_add_def fun_eq_iff split: option.splits)
qed

lemma distinct_map_new: "distinct (map fst (map_new es))"
  by (simp add: map_new_def distinct_fold_map_set)

section \<open>Properties of the parser\<close>

lemma exec_defs_group2: "(j, m0, m2, m3) \<in> set (exec_defs bol i s) \<Longrightarrow> m2 \<noteq> []"
proof (induction bol i s rule: exec_defs.induct)
  case (1 bol i s)
  show ?case
  proof (cases "if bol then match_def s else None")
    case None
    show ?thesis
    proof (cases s)
      case Nil
      then show ?thesis
        using "1.prems" None by (subst (asm) exec_defs.simps) simp
    next
      case (Cons c cs)
      then show ?thesis
        using "1.prems" "1.IH"(1) [OF None Cons] None
        by (subst (asm) exec_defs.simps) simp
    qed
  next
    case (Some x)
    obtain a b rest where x: "x = (a, b, rest)" by (cases x) auto
    have "match_def s = Some (a, b, rest)"
      using Some x by (simp split: if_splits)
    then have a: "a \<noteq> []"
      unfolding match_def_def by (auto simp: Let_def split: list.splits if_splits)
    show ?thesis
      using "1.prems" "1.IH"(2) [OF Some x [symmetric] refl refl] a Some x
      by (subst (asm) exec_defs.simps) (auto simp: Let_def)
  qed
qed

text \<open>
  The guard of \<^verbatim>\<open>parseFootnotesSimple\<close> never fires, so its map is the one built from the
  definitions of \<^verbatim>\<open>parseSourceContent\<close>, inserted in document order.
\<close>

lemma parseFootnotesSimple_map_new:
  "parseFootnotesSimple text =
     map_new (map (\<lambda>d. (ref d, defn d)) (definitions (parseSourceContent text)))"
proof -
  have "fold (\<lambda>(i, m0, m2, m3) fm.
               if m2 \<noteq> [] then map_set (trim m2) (trim (unindent m3)) fm else fm) ms m
      = fold (\<lambda>e m. map_set (fst e) (snd e) m)
          (map (\<lambda>d. (ref d, defn d))
             (map (\<lambda>(i, m0, m2, m3).
                     \<lparr>start = i, endp = i + length m0, ref = trim m2, fullMatch = m0,
                      defn = trim (unindent m3)\<rparr>) ms)) m"
    if "\<forall>(j, m0, m2, m3) \<in> set ms. m2 \<noteq> []" for ms and m :: "(string, string) jsmap"
    using that by (induction ms arbitrary: m) auto
  moreover have "\<forall>(j, m0, m2, m3) \<in> set (exec_defs True 0 text). m2 \<noteq> []"
    using exec_defs_group2 by blast
  ultimately show ?thesis
    by (simp add: parseFootnotesSimple_def parseSourceContent_def map_new_def)
qed

text \<open>
  The keys of the map returned by \<^verbatim>\<open>parseFootnotesSimple\<close> are pairwise different and are
  the refs of the matches of the definition pattern; and a match after which no later
  match has the same ref gives the body stored under that ref.
\<close>

lemma parseFootnotesSimple_last_match:
  "distinct (map fst (parseFootnotesSimple text)) \<and>
   fst ` set (parseFootnotesSimple text) = ref ` set (definitions (parseSourceContent text)) \<and>
   (\<forall>pre d post.
      definitions (parseSourceContent text) = pre @ d # post \<and> (\<forall>d' \<in> set post. ref d' \<noteq> ref d)
      \<longrightarrow> map_get (parseFootnotesSimple text) (ref d) = Some (defn d))"
proof (intro conjI allI impI)
  show "distinct (map fst (parseFootnotesSimple text))"
    by (simp add: parseFootnotesSimple_map_new distinct_map_new)
next
  show "fst ` set (parseFootnotesSimple text) = ref ` set (definitions (parseSourceContent text))"
    by (simp add: parseFootnotesSimple_map_new map_new_def keys_fold_map_set image_image)
next
  fix pre d post
  assume a: "definitions (parseSourceContent text) = pre @ d # post
    \<and> (\<forall>d' \<in> set post. ref d' \<noteq> ref d)"
  have "map_of (rev (map (\<lambda>d. (ref d, defn d)) post)) (ref d) = None"
    using a by (auto simp: map_of_eq_None_iff image_image)
  then show "map_get (parseFootnotesSimple text) (ref d) = Some (defn d)"
    using a
    by (simp add: parseFootnotesSimple_map_new map_new_def map_get_def map_of_fold_map_set
        map_of_map_set map_add_def)
qed






























text \<open>
  C5. The parsers are meant to skip a definition whose ref is empty after trimming. The
  guard of \<^verbatim>\<open>parseFootnotesSimple\<close> tests the untrimmed group, which always holds a
  character, and \<^verbatim>\<open>parseSourceContent\<close> has no guard: on the line \<^verbatim>\<open>[^ ]: body\<close> both
  return a definition whose ref is the empty string.
\<close>

theorem blank_ref_not_skipped:
  "parseFootnotesSimple ''[^ ]: body'' = [('''', ''body'')] \<and>
   map (\<lambda>d. (ref d, defn d)) (definitions (parseSourceContent ''[^ ]: body'')) = [('''', ''body'')]"
  by code_simp

section \<open>Properties of the Source rebuild\<close>

text \<open>
  C7. The flag \<^verbatim>\<open>moveFootnotesToEnd\<close> does not change the result of
  \<^verbatim>\<open>updateSourceNoteContentRebuild\<close>: both branches append the definition block.
\<close>

theorem moveToEnd_irrelevant:
  "updateSourceNoteContentRebuild lc sourceContent footnotesFromCue deleteReferences True =
   updateSourceNoteContentRebuild lc sourceContent footnotesFromCue deleteReferences False"
  by (simp only: updateSourceNoteContentRebuild_def if_True if_False)

section \<open>Properties of the newline normalisation\<close>

lemma collapseNewlines_Nil [simp]: "collapseNewlines [] = []"
  by (simp add: collapseNewlines.simps)

lemma collapseNewlines_hit:
  assumes "prefix ''\<newline>\<newline>\<newline>'' s"
  shows "collapseNewlines s
    = ''\<newline>\<newline>'' @ collapseNewlines (dropWhile (\<lambda>c. c = CHR ''\<newline>'') s)"
  by (subst collapseNewlines.simps, subst if_P, rule assms, rule refl)

lemma collapseNewlines_step:
  assumes "\<not> prefix ''\<newline>\<newline>\<newline>'' (c # cs)"
  shows "collapseNewlines (c # cs) = c # collapseNewlines cs"
  by (subst collapseNewlines.simps, subst if_not_P, rule assms, simp)

lemma collapseNewlines_other:
  "c \<noteq> CHR ''\<newline>'' \<Longrightarrow> collapseNewlines (c # cs) = c # collapseNewlines cs"
  by (rule collapseNewlines_step) simp

lemma collapseNewlines_take1: "take 1 (collapseNewlines s) = take 1 s"
proof (cases "prefix ''\<newline>\<newline>\<newline>'' s")
  case True
  then show ?thesis by (auto simp: collapseNewlines_hit prefix_def)
next
  case False
  then show ?thesis by (cases s) (simp_all add: collapseNewlines_step)
qed

lemma collapseNewlines_eq_Nil [simp]: "collapseNewlines s = [] \<longleftrightarrow> s = []"
  using collapseNewlines_take1 [of s] by (cases s; cases "collapseNewlines s") auto

lemma collapseNewlines_hd: "s \<noteq> [] \<Longrightarrow> hd (collapseNewlines s) = hd s"
  using collapseNewlines_take1 [of s] by (cases s; cases "collapseNewlines s") auto

lemma no_triple_collapse: "\<not> str_includes (collapseNewlines s) ''\<newline>\<newline>\<newline>''"
proof (induction s rule: collapseNewlines.induct)
  case (1 s)
  let ?nl = "\<lambda>c. c = CHR ''\<newline>''"
  show ?case
  proof (cases "prefix ''\<newline>\<newline>\<newline>'' s")
    case True
    let ?r = "dropWhile ?nl s"
    have ih: "\<not> str_includes (collapseNewlines ?r) ''\<newline>\<newline>\<newline>''"
      by (rule "1.IH"(1) [OF True])
    have "?r = [] \<or> hd ?r \<noteq> CHR ''\<newline>''"
      using hd_dropWhile [of ?nl s] by blast
    moreover have "take 1 r \<noteq> [c]" if "r = [] \<or> hd r \<noteq> c" for r :: string and c
      using that by (cases r) auto
    ultimately have h: "take 1 (collapseNewlines ?r) \<noteq> ''\<newline>''"
      unfolding collapseNewlines_take1 by blast
    have "\<not> str_includes (''\<newline>\<newline>'' @ x) ''\<newline>\<newline>\<newline>''"
      if "\<not> str_includes x ''\<newline>\<newline>\<newline>''" "take 1 x \<noteq> ''\<newline>''" for x
      using that by (cases x) auto
    then show ?thesis
      unfolding collapseNewlines_hit [OF True] using ih h by blast
  next
    case False
    show ?thesis
    proof (cases s)
      case Nil
      then show ?thesis by simp
    next
      case (Cons c cs)
      have ih: "\<not> str_includes (collapseNewlines cs) ''\<newline>\<newline>\<newline>''"
        by (rule "1.IH"(2) [OF False Cons])
      have "\<not> prefix ''\<newline>\<newline>\<newline>'' (c # collapseNewlines cs)"
      proof
        assume p: "prefix ''\<newline>\<newline>\<newline>'' (c # collapseNewlines cs)"
        then have c: "c = CHR ''\<newline>''" and p2: "prefix ''\<newline>\<newline>'' (collapseNewlines cs)"
          by auto
        from p2 have "take 1 cs = ''\<newline>''"
          using collapseNewlines_take1 [of cs] by (auto simp: prefix_def)
        then obtain cs' where cs: "cs = CHR ''\<newline>'' # cs'"
          by (cases cs) auto
        with False Cons c have n: "\<not> prefix ''\<newline>'' cs'" by simp
        then have "\<not> prefix ''\<newline>\<newline>\<newline>'' cs" using cs by (cases cs') auto
        then have "collapseNewlines cs = CHR ''\<newline>'' # collapseNewlines cs'"
          unfolding cs by (rule collapseNewlines_step)
        with p2 have "take 1 (collapseNewlines cs') = ''\<newline>''"
          by (auto simp: prefix_def)
        then have "take 1 cs' = ''\<newline>''"
          unfolding collapseNewlines_take1 .
        with n show False by (cases cs') auto
      qed
      then show ?thesis
        using ih False Cons by (simp add: collapseNewlines_step)
    qed
  qed
qed

lemma collapseNewlines_last: "s \<noteq> [] \<Longrightarrow> last (collapseNewlines s) = last s"
proof (induction s rule: collapseNewlines.induct)
  case (1 s)
  let ?nl = "\<lambda>c. c = CHR ''\<newline>''"
  show ?case
  proof (cases "prefix ''\<newline>\<newline>\<newline>'' s")
    case True
    let ?r = "dropWhile ?nl s"
    show ?thesis
    proof (cases "?r = []")
      case True
      then have "\<forall>c \<in> set s. c = CHR ''\<newline>''" by (simp add: dropWhile_eq_Nil_conv)
      then have "last s = CHR ''\<newline>''" using "1.prems" last_in_set by blast
      then show ?thesis
        unfolding collapseNewlines_hit [OF \<open>prefix ''\<newline>\<newline>\<newline>'' s\<close>] using True by simp
    next
      case False
      have "s = takeWhile ?nl s @ ?r" by simp
      then have "last s = last ?r" using False by (metis last_appendR)
      moreover have "collapseNewlines ?r \<noteq> []" using False by simp
      ultimately show ?thesis
        unfolding collapseNewlines_hit [OF True] using "1.IH"(1) [OF True False] by auto
    qed
  next
    case False
    then show ?thesis
      using "1.prems" "1.IH"(2) [OF False]
      by (cases s) (auto simp: collapseNewlines_step)
  qed
qed

lemma collapseNewlines_snoc:
  "y = [] \<or> last y \<noteq> CHR ''\<newline>'' \<Longrightarrow>
   collapseNewlines (y @ ''\<newline>'') = collapseNewlines y @ ''\<newline>''"
proof (induction y rule: collapseNewlines.induct)
  case (1 y)
  let ?nl = "\<lambda>c. c = CHR ''\<newline>''"
  show ?case
  proof (cases "prefix ''\<newline>\<newline>\<newline>'' y")
    case True
    then have y: "y \<noteq> []" by auto
    with "1.prems" have l: "last y \<noteq> CHR ''\<newline>''" by simp
    let ?r = "dropWhile ?nl y"
    have ex: "\<exists>c \<in> set y. \<not> ?nl c" using l y last_in_set by blast
    then have r: "?r \<noteq> []" by (simp add: dropWhile_eq_Nil_conv)
    from ex obtain x where "x \<in> set y" "\<not> ?nl x" by blast
    then have d: "dropWhile ?nl (y @ ''\<newline>'') = ?r @ ''\<newline>''"
      by (rule dropWhile_append1)
    have "y = takeWhile ?nl y @ ?r" by simp
    then have "last ?r = last y" using r by (metis last_appendR)
    then have ih: "collapseNewlines (?r @ ''\<newline>'') = collapseNewlines ?r @ ''\<newline>''"
      using "1.IH"(1) [OF True] l by simp
    have p: "prefix ''\<newline>\<newline>\<newline>'' (y @ ''\<newline>'')"
      using True by (rule prefix_prefix)
    show ?thesis
      unfolding collapseNewlines_hit [OF p] collapseNewlines_hit [OF True] d ih by simp
  next
    case False
    show ?thesis
    proof (cases y)
      case Nil
      then show ?thesis by (simp add: collapseNewlines_step)
    next
      case (Cons c cs)
      have cs: "cs = [] \<or> last cs \<noteq> CHR ''\<newline>''"
        using "1.prems" Cons by (auto split: if_splits)
      have ih: "collapseNewlines (cs @ ''\<newline>'') = collapseNewlines cs @ ''\<newline>''"
        by (rule "1.IH"(2) [OF False Cons cs])
      have "\<not> prefix ''\<newline>\<newline>\<newline>'' (c # cs @ ''\<newline>'')"
      proof
        assume p: "prefix ''\<newline>\<newline>\<newline>'' (c # cs @ ''\<newline>'')"
        show False
        proof (cases cs)
          case Nil
          with p show False by simp
        next
          case (Cons d ds)
          note c1 = Cons
          show False
          proof (cases ds)
            case Nil
            with p c1 cs show False by auto
          next
            case (Cons e es)
            with p c1 False \<open>y = c # cs\<close> show False by auto
          qed
        qed
      qed
      then show ?thesis
        using False Cons ih by (simp add: collapseNewlines_step)
    qed
  qed
qed

lemma trimEnd_last: "trimEnd z = [] \<or> \<not> is_ws (last (trimEnd z))"
proof -
  have "dropWhile is_ws (rev z) = [] \<or> \<not> is_ws (hd (dropWhile is_ws (rev z)))"
    using hd_dropWhile [of is_ws "rev z"] by blast
  then show ?thesis
    by (auto simp: trimEnd_def last_rev)
qed

lemma newline_normalized_collapse:
  "newline_normalized (collapseNewlines (trimEnd z @ ''\<newline>''))"
proof -
  let ?y = "trimEnd z"
  have nl: "is_ws (CHR ''\<newline>'')" by (simp add: is_ws_def)
  have y: "?y = [] \<or> \<not> is_ws (last ?y)" by (rule trimEnd_last)
  then have y': "?y = [] \<or> last ?y \<noteq> CHR ''\<newline>''" using nl by auto
  have e: "collapseNewlines (?y @ ''\<newline>'') = collapseNewlines ?y @ ''\<newline>''"
    by (rule collapseNewlines_snoc [OF y'])
  have "butlast (collapseNewlines ?y @ ''\<newline>'') = collapseNewlines ?y"
    by (simp add: butlast_append)
  moreover have "collapseNewlines ?y = [] \<or> \<not> is_ws (last (collapseNewlines ?y))"
    using y by (auto simp: collapseNewlines_last)
  moreover have "\<not> str_includes (collapseNewlines (?y @ ''\<newline>'')) ''\<newline>\<newline>\<newline>''"
    by (rule no_triple_collapse)
  ultimately show ?thesis
    unfolding newline_normalized_def e by simp
qed

text \<open>
  C9. What \<^verbatim>\<open>generateCueContent\<close> and \<^verbatim>\<open>updateSourceNoteContentRebuild\<close> return holds no
  run of three or more newlines and ends with exactly one newline, which no white space
  precedes.
\<close>

theorem output_newline_normalized:
  "newline_normalized (generateCueContent lc cfg currentContent sourceNoteFile footnotes) \<and>
   newline_normalized
     (updateSourceNoteContentRebuild lc sourceContent footnotesFromCue deleteReferences moveToEnd)"
proof
  have "\<exists>z. generateCueContent lc cfg currentContent sourceNoteFile footnotes
      = collapseNewlines (trimEnd z @ ''\<newline>'')"
    unfolding generateCueContent_def Let_def by (intro exI) (rule refl)
  then show "newline_normalized (generateCueContent lc cfg currentContent sourceNoteFile footnotes)"
    using newline_normalized_collapse by auto
  have "\<exists>z. updateSourceNoteContentRebuild lc sourceContent footnotesFromCue deleteReferences
        moveToEnd = collapseNewlines (trimEnd z @ ''\<newline>'')"
    unfolding updateSourceNoteContentRebuild_def Let_def case_prod_beta by (intro exI) (rule refl)
  then show "newline_normalized
     (updateSourceNoteContentRebuild lc sourceContent footnotesFromCue deleteReferences moveToEnd)"
    using newline_normalized_collapse by auto
qed

theorem output_newline_normalized_witness:
  "generateCueContent codeunit_compare plain_settings ''Head\<newline>\<newline>\<newline>\<newline>tail \<newline>\<newline>\<newline>'' note_file []
     = ''[[Note|Back to Source]]\<newline>\<newline>Head\<newline>\<newline>tail\<newline>''
   \<and> newline_normalized
       (generateCueContent codeunit_compare plain_settings ''Head\<newline>\<newline>\<newline>\<newline>tail \<newline>\<newline>\<newline>'' note_file [])
   \<and> updateSourceNoteContentRebuild codeunit_compare ''Text[^a]\<newline>\<newline>\<newline>\<newline>more \<newline>[^a]: A'' [(''a'', ''A2'')]
         False True
     = ''Text[^a]\<newline>\<newline>more\<newline>\<newline>[^a]: A2\<newline>''
   \<and> newline_normalized
       (updateSourceNoteContentRebuild codeunit_compare ''Text[^a]\<newline>\<newline>\<newline>\<newline>more \<newline>[^a]: A'' [(''a'', ''A2'')]
          False True)"
proof -
  have "generateCueContent codeunit_compare plain_settings ''Head\<newline>\<newline>\<newline>\<newline>tail \<newline>\<newline>\<newline>'' note_file []
     = ''[[Note|Back to Source]]\<newline>\<newline>Head\<newline>\<newline>tail\<newline>''"
    by code_simp
  moreover have "updateSourceNoteContentRebuild codeunit_compare
      ''Text[^a]\<newline>\<newline>\<newline>\<newline>more \<newline>[^a]: A'' [(''a'', ''A2'')] False True
     = ''Text[^a]\<newline>\<newline>more\<newline>\<newline>[^a]: A2\<newline>''"
    by code_simp
  ultimately show ?thesis
    using output_newline_normalized [of codeunit_compare plain_settings
        "''Head\<newline>\<newline>\<newline>\<newline>tail \<newline>\<newline>\<newline>''" note_file "[]"
        "''Text[^a]\<newline>\<newline>\<newline>\<newline>more \<newline>[^a]: A''" "[(''a'', ''A2'')]" False True]
    by simp
qed

section \<open>Properties of the generated Cue note\<close>

lemma match_ref_guarded: "guarded s \<Longrightarrow> match_ref s = None"
proof (cases s)
  case Nil
  then show ?thesis by (simp add: match_ref_def)
next
  case (Cons c1 t1)
  note s = Cons
  assume g: "guarded s"
  show ?thesis
  proof (cases t1)
    case Nil
    with s show ?thesis by (simp add: match_ref_def)
  next
    case (Cons c2 t)
    show ?thesis
    proof (cases "c1 = CHR ''['' \<and> c2 = CHR ''^''")
      case False
      then show ?thesis using s Cons by (auto simp: match_ref_def)
    next
      case True
      with g s Cons have "closes t" by simp
      then obtain d1 v where "dropWhile (\<lambda>c. c \<noteq> CHR '']'') t = d1 # CHR '':'' # v"
        by (auto simp: closes_def split: list.splits)
      then show ?thesis
        using s Cons True by (simp add: match_ref_def Let_def)
    qed
  qed
qed

lemma exec_refs_guarded: "guarded s \<Longrightarrow> exec_refs i s = []"
proof (induction s arbitrary: i)
  case Nil
  then show ?case by (subst exec_refs.simps) (simp add: match_ref_def)
next
  case (Cons c cs)
  have "match_ref (c # cs) = None"
    using Cons.prems by (rule match_ref_guarded)
  moreover have "exec_refs (Suc i) cs = []"
    using Cons.prems by (intro Cons.IH) simp
  ultimately show ?case by (subst exec_refs.simps) simp
qed

lemma guarded_plain: "\<not> str_includes s ''[^'' \<Longrightarrow> guarded s"
proof (induction s)
  case Nil
  then show ?case by simp
next
  case (Cons c cs)
  then have "\<not> prefix ''[^'' (c # cs)" "guarded cs" by simp_all
  then show ?case by (cases cs) auto
qed

lemma closes_append: "closes t \<Longrightarrow> closes (t @ b)"
proof -
  assume "closes t"
  then obtain d1 v where d: "dropWhile (\<lambda>c. c \<noteq> CHR '']'') t = d1 # CHR '':'' # v"
    by (auto simp: closes_def split: list.splits)
  then have "dropWhile (\<lambda>c. c \<noteq> CHR '']'') t \<noteq> []" by simp
  then obtain x where "x \<in> set t" "\<not> x \<noteq> CHR '']''"
    by (auto simp: dropWhile_eq_Nil_conv)
  then have "dropWhile (\<lambda>c. c \<noteq> CHR '']'') (t @ b) = dropWhile (\<lambda>c. c \<noteq> CHR '']'') t @ b"
    by (rule dropWhile_append1)
  with d show ?thesis by (simp add: closes_def)
qed

lemma guarded_append:
  "guarded a \<Longrightarrow> guarded b \<Longrightarrow> a = [] \<or> last a \<noteq> CHR ''['' \<or> take 1 b \<noteq> ''^'' \<Longrightarrow>
   guarded (a @ b)"
proof (induction a)
  case Nil
  then show ?case by simp
next
  case (Cons c cs)
  show ?case
  proof (cases cs)
    case Nil
    then show ?thesis using Cons.prems by auto
  next
    case (Cons d ds)
    have "guarded (cs @ b)"
      using Cons.prems Cons by (intro Cons.IH) auto
    moreover have "closes (drop 1 cs @ b)" if "closes (drop 1 cs)"
      using that by (rule closes_append)
    ultimately show ?thesis
      using Cons.prems Cons by auto
  qed
qed

lemma guarded_suffix: "guarded (a @ b) \<Longrightarrow> guarded b"
  by (induction a) auto

lemma closes_after_ref: "CHR '']'' \<notin> set u \<Longrightarrow> closes (u @ CHR '']'' # CHR '':'' # w)"
proof -
  assume "CHR '']'' \<notin> set u"
  then have "dropWhile (\<lambda>c. c \<noteq> CHR '']'') (u @ CHR '']'' # CHR '':'' # w) = CHR '']'' # CHR '':'' # w"
    by (induction u) auto
  then show ?thesis by (simp add: closes_def)
qed

lemma guarded_ref_part:
  "CHR '']'' \<notin> set r \<Longrightarrow> guarded w \<Longrightarrow> guarded (r @ CHR '']'' # CHR '':'' # w)"
proof (induction r)
  case Nil
  then show ?case by simp
next
  case (Cons c cs)
  have "closes (drop 1 (cs @ CHR '']'' # CHR '':'' # w))"
    if "take 1 (cs @ CHR '']'' # CHR '':'' # w) = ''^''"
  proof -
    from that obtain ds where cs: "cs = CHR ''^'' # ds" by (cases cs) auto
    then have "CHR '']'' \<notin> set ds" using Cons.prems by simp
    then show ?thesis unfolding cs by (simp add: closes_after_ref)
  qed
  then show ?case
    using Cons by simp
qed

lemma guarded_render_def:
  assumes "CHR '']'' \<notin> set (fst e)" "\<not> str_includes (snd e) ''[^''"
  shows "guarded (render_def e)"
proof -
  have "guarded (CHR '' '' # snd e)"
    using assms(2) by (simp add: guarded_plain)
  then have g: "guarded (fst e @ CHR '']'' # CHR '':'' # CHR '' '' # snd e)"
    using assms(1) by (rule guarded_ref_part [rotated])
  have "closes (fst e @ CHR '']'' # CHR '':'' # CHR '' '' # snd e)"
    using assms(1) by (rule closes_after_ref)
  with g show ?thesis
    by (simp add: render_def_def)
qed

lemma guarded_sep:
  "guarded a \<Longrightarrow> guarded b \<Longrightarrow> guarded (a @ ''\<newline>\<newline>'' @ b)"
proof -
  assume a: "guarded a" and b: "guarded b"
  have "guarded (''\<newline>\<newline>'' @ b)" using b by simp
  then show ?thesis
    using a by (intro guarded_append) simp_all
qed

lemma guarded_join:
  "(\<forall>x \<in> set xs. guarded x) \<Longrightarrow> guarded (join ''\<newline>\<newline>'' xs)"
proof (induction "''\<newline>\<newline>''" xs rule: join.induct)
  case 1
  then show ?case by simp
next
  case (2 x)
  then show ?case by simp
next
  case (3 x y ys)
  then have "guarded x" "guarded (join ''\<newline>\<newline>'' (y # ys))" by simp_all
  then have "guarded (x @ ''\<newline>\<newline>'' @ join ''\<newline>\<newline>'' (y # ys))"
    by (rule guarded_sep)
  then show ?case by simp
qed

lemma set_insert_by: "set (insert_by cmp x ys) = insert x (set ys)"
  by (induction ys) auto

lemma set_sort_by: "set (sort_by cmp xs) = set xs"
  by (induction xs) (simp_all add: sort_by_def set_insert_by)

lemma closes_trim:
  assumes "closes (t @ w)" "\<forall>c \<in> set w. is_ws c"
  shows "closes t"
proof -
  let ?p = "\<lambda>c. c \<noteq> CHR '']''"
  have nw: "\<not> is_ws (CHR '']'')" "\<not> is_ws (CHR '':'')" by (simp_all add: is_ws_def)
  show ?thesis
  proof (cases "CHR '']'' \<in> set t")
    case True
    then have d: "dropWhile ?p (t @ w) = dropWhile ?p t @ w"
      by (intro dropWhile_append1) auto
    from True have "dropWhile ?p t \<noteq> []" by (auto simp: dropWhile_eq_Nil_conv)
    then obtain d1 u where u: "dropWhile ?p t = d1 # u" by (cases "dropWhile ?p t") auto
    have "u \<noteq> []"
    proof
      assume "u = []"
      with assms(1) d u obtain v where "w = CHR '':'' # v"
        by (auto simp: closes_def split: list.splits)
      with assms(2) nw show False by simp
    qed
    then show ?thesis
      using assms(1) d u by (cases u) (auto simp: closes_def)
  next
    case False
    then have "dropWhile ?p (t @ w) = dropWhile ?p w"
      by (intro dropWhile_append2) auto
    moreover have "dropWhile ?p w = []"
      using assms(2) nw by (auto simp: dropWhile_eq_Nil_conv)
    ultimately have e: "dropWhile ?p (t @ w) = []" by simp
    have "\<not> closes (t @ w)" unfolding closes_def e by simp
    with assms(1) show ?thesis by simp
  qed
qed

lemma guarded_trim: "guarded (p @ w) \<Longrightarrow> \<forall>c \<in> set w. is_ws c \<Longrightarrow> guarded p"
proof (induction p)
  case Nil
  then show ?case by simp
next
  case (Cons c cs)
  have g: "guarded cs" using Cons by simp
  have "closes (drop 1 cs)" if "c = CHR ''[''" "take 1 cs = ''^''"
  proof -
    from that obtain ds where cs: "cs = CHR ''^'' # ds" by (cases cs) auto
    with Cons.prems(1) that have "closes (ds @ w)" by simp
    then show ?thesis using Cons.prems(2) cs by (simp add: closes_trim)
  qed
  with g show ?case by simp
qed

lemma trimEnd_decomp: "\<exists>w. s = trimEnd s @ w \<and> (\<forall>c \<in> set w. is_ws c)"
proof -
  have "rev s = takeWhile is_ws (rev s) @ dropWhile is_ws (rev s)" by simp
  then have "s = rev (dropWhile is_ws (rev s)) @ rev (takeWhile is_ws (rev s))"
    by (metis rev_append rev_rev_ident)
  moreover have "\<forall>c \<in> set (rev (takeWhile is_ws (rev s))). is_ws c"
    by (auto dest: set_takeWhileD)
  ultimately show ?thesis unfolding trimEnd_def by blast
qed

lemma guarded_trimEnd: "guarded s \<Longrightarrow> guarded (trimEnd s)"
  using trimEnd_decomp [of s] guarded_trim by metis

lemma collapseNewlines_split:
  "c \<noteq> CHR ''\<newline>'' \<Longrightarrow>
   collapseNewlines (a @ c # b) = collapseNewlines a @ c # collapseNewlines b"
proof (induction a rule: collapseNewlines.induct)
  case (1 a)
  let ?nl = "\<lambda>c. c = CHR ''\<newline>''"
  show ?case
  proof (cases "prefix ''\<newline>\<newline>\<newline>'' a")
    case True
    have p: "prefix ''\<newline>\<newline>\<newline>'' (a @ c # b)"
      using True by (rule prefix_prefix)
    have d: "dropWhile ?nl (a @ c # b) = dropWhile ?nl a @ c # b"
      using "1.prems" by (simp add: dropWhile_append3)
    show ?thesis
      unfolding collapseNewlines_hit [OF p] collapseNewlines_hit [OF True] d
      using "1.IH"(1) [OF True "1.prems"] by simp
  next
    case False
    show ?thesis
    proof (cases a)
      case Nil
      then show ?thesis using "1.prems" by (simp add: collapseNewlines_other)
    next
      case (Cons x xs)
      have n: "\<not> prefix ''\<newline>\<newline>\<newline>'' (x # xs @ c # b)"
      proof
        assume p: "prefix ''\<newline>\<newline>\<newline>'' (x # xs @ c # b)"
        show False
        proof (cases xs)
          case Nil
          with p "1.prems" show False by auto
        next
          case (Cons y ys)
          note c1 = Cons
          show False
          proof (cases ys)
            case Nil
            with p c1 "1.prems" show False by auto
          next
            case (Cons z zs)
            with p c1 False \<open>a = x # xs\<close> show False by auto
          qed
        qed
      qed
      have "collapseNewlines (xs @ c # b) = collapseNewlines xs @ c # collapseNewlines b"
        by (rule "1.IH"(2) [OF False Cons "1.prems"])
      then show ?thesis
        using False Cons n by (simp add: collapseNewlines_step)
    qed
  qed
qed

lemma set_collapseNewlines: "set (collapseNewlines s) \<subseteq> set s"
proof (induction s rule: collapseNewlines.induct)
  case (1 s)
  show ?case
  proof (cases "prefix ''\<newline>\<newline>\<newline>'' s")
    case True
    then have "CHR ''\<newline>'' \<in> set s" by (auto simp: prefix_def)
    moreover have "set (dropWhile (\<lambda>c. c = CHR ''\<newline>'') s) \<subseteq> set s"
      by (auto dest: set_dropWhileD)
    ultimately show ?thesis
      unfolding collapseNewlines_hit [OF True] using "1.IH"(1) [OF True] by auto
  next
    case False
    then show ?thesis
      using "1.IH"(2) [OF False] by (cases s) (auto simp: collapseNewlines_step)
  qed
qed

lemma closes_collapse: "closes t \<Longrightarrow> closes (collapseNewlines t)"
proof -
  let ?p = "\<lambda>c. c \<noteq> CHR '']''"
  assume "closes t"
  then obtain d1 v where d: "dropWhile ?p t = d1 # CHR '':'' # v"
    by (auto simp: closes_def split: list.splits)
  have "d1 = hd (dropWhile ?p t)" using d by simp
  moreover have "dropWhile ?p t \<noteq> []" using d by simp
  then have "\<not> ?p (hd (dropWhile ?p t))" by (rule hd_dropWhile)
  ultimately have d1: "d1 = CHR '']''" by simp
  have t: "t = takeWhile ?p t @ CHR '']'' # CHR '':'' # v"
    using d d1 takeWhile_dropWhile_id [of ?p t] by simp
  have "collapseNewlines t
      = collapseNewlines (takeWhile ?p t) @ CHR '']'' # CHR '':'' # collapseNewlines v"
    by (subst t) (simp add: collapseNewlines_split collapseNewlines_other)
  moreover have "CHR '']'' \<notin> set (collapseNewlines (takeWhile ?p t))"
    using set_collapseNewlines [of "takeWhile ?p t"] by (auto dest: set_takeWhileD)
  ultimately show ?thesis
    by (simp add: closes_after_ref)
qed

lemma guarded_collapse: "guarded s \<Longrightarrow> guarded (collapseNewlines s)"
proof (induction s rule: collapseNewlines.induct)
  case (1 s)
  let ?nl = "\<lambda>c. c = CHR ''\<newline>''"
  show ?case
  proof (cases "prefix ''\<newline>\<newline>\<newline>'' s")
    case True
    have "s = takeWhile ?nl s @ dropWhile ?nl s" by simp
    then have "guarded (dropWhile ?nl s)"
      using "1.prems" guarded_suffix by metis
    then have "guarded (collapseNewlines (dropWhile ?nl s))"
      by (rule "1.IH"(1) [OF True])
    then show ?thesis
      unfolding collapseNewlines_hit [OF True] by simp
  next
    case False
    show ?thesis
    proof (cases s)
      case Nil
      then show ?thesis by simp
    next
      case (Cons c cs)
      have g: "guarded (collapseNewlines cs)"
        using "1.IH"(2) [OF False Cons] "1.prems" Cons by simp
      have "closes (drop 1 (collapseNewlines cs))"
        if "c = CHR ''[''" "take 1 (collapseNewlines cs) = ''^''"
      proof -
        from that(2) have "take 1 cs = ''^''" unfolding collapseNewlines_take1 .
        then obtain t where cs: "cs = CHR ''^'' # t" by (cases cs) auto
        with "1.prems" Cons that(1) have "closes t" by simp
        then have "closes (collapseNewlines t)" by (rule closes_collapse)
        then show ?thesis unfolding cs by (simp add: collapseNewlines_other)
      qed
      with g show ?thesis
        using False Cons by (simp add: collapseNewlines_step)
    qed
  qed
qed

text \<open>
  C6, as the code has it. The header of the current Cue note and the bodies of the
  definitions are copied as they are, so a reference inside them stays in the generated
  note. When the back-link, the header that is kept and every body hold no \<^verbatim>\<open>[^\<close>, and no
  ref holds a \<^verbatim>\<open>]\<close>, parsing the generated Cue note yields no reference.
\<close>

theorem cue_without_references:
  assumes link: "\<not> str_includes (str_replace (linkToSourceText cfg) ''{{sourceNote}}''
                    (basename sourceNoteFile)) ''[^''"
    and header: "\<not> str_includes
                    (trimEnd (take (firstElementIdx currentContent) currentContent)) ''[^''"
    and entries: "\<forall>e \<in> set footnotes. CHR '']'' \<notin> set (fst e) \<and> \<not> str_includes (snd e) ''[^''"
  shows "references (parseSourceContent
           (generateCueContent lc cfg currentContent sourceNoteFile footnotes)) = []"
proof -
  define lnk where "lnk = str_replace (linkToSourceText cfg) ''{{sourceNote}}'' (basename sourceNoteFile)"
  define h0 where "h0 = trimEnd (take (firstElementIdx currentContent) currentContent)"
  define hdr where "hdr = (if \<not> str_includes h0 lnk
                           then (if h0 \<noteq> [] then lnk @ ''\<newline>\<newline>'' @ h0 else lnk) else h0)"
  define fh where "fh = (if hdr \<noteq> [] then hdr @ ''\<newline>\<newline>'' else [])"
  define fns where "fns = (if footnotes \<noteq> []
       then join ''\<newline>\<newline>'' (map render_def (sorted_entries lc footnotes)) else [])"
  define cb where "cb = (if footnotes \<noteq> []
       then ''\<newline>\<newline>```'' @ codeBlockProcessorId @ ''\<newline>```\<newline>'' else [])"
  have out: "generateCueContent lc cfg currentContent sourceNoteFile footnotes
      = collapseNewlines (trimEnd (fh @ fns @ cb) @ ''\<newline>'')"
    unfolding generateCueContent_def Let_def lnk_def h0_def hdr_def fh_def fns_def cb_def ..
  have gl: "guarded lnk" "guarded h0"
    using link header unfolding lnk_def h0_def by (simp_all add: guarded_plain)
  then have "guarded (lnk @ ''\<newline>\<newline>'' @ h0)"
    by (rule guarded_sep)
  then have "guarded hdr"
    unfolding hdr_def using gl by simp
  then have "guarded (hdr @ ''\<newline>\<newline>'' @ [])"
    by (intro guarded_sep) simp_all
  then have gfh: "guarded fh" and lfh: "fh = [] \<or> last fh \<noteq> CHR ''[''"
    unfolding fh_def by simp_all
  have "\<forall>x \<in> set (map render_def (sorted_entries lc footnotes)). guarded x"
    using entries by (auto simp: sorted_entries_def set_sort_by guarded_render_def)
  then have "guarded (join ''\<newline>\<newline>'' (map render_def (sorted_entries lc footnotes)))"
    by (rule guarded_join)
  then have gfns: "guarded fns"
    unfolding fns_def by simp
  have gcb: "guarded cb" and hcb: "take 1 cb \<noteq> ''^''"
    unfolding cb_def codeBlockProcessorId_def by simp_all
  have "guarded (fns @ cb)"
    using gfns gcb by (rule guarded_append) (use hcb in blast)
  with gfh have "guarded (fh @ fns @ cb)"
    by (rule guarded_append) (use lfh in blast)
  then have "guarded (trimEnd (fh @ fns @ cb))"
    by (rule guarded_trimEnd)
  then have "guarded (trimEnd (fh @ fns @ cb) @ ''\<newline>'')"
    by (rule guarded_append) simp_all
  then have "guarded (generateCueContent lc cfg currentContent sourceNoteFile footnotes)"
    unfolding out by (rule guarded_collapse)
  then show ?thesis
    by (simp add: parseSourceContent_def exec_refs_guarded)
qed

theorem cue_without_references_witness:
  "\<not> str_includes (str_replace (linkToSourceText plain_settings) ''{{sourceNote}}''
        (basename note_file)) ''[^''
   \<and> trimEnd (take (firstElementIdx ''My cues\<newline>\<newline>[^z]: old\<newline>'') ''My cues\<newline>\<newline>[^z]: old\<newline>'') = ''My cues''
   \<and> \<not> str_includes ''My cues'' ''[^''
   \<and> CHR '']'' \<notin> set ''a'' \<and> \<not> str_includes ''x'' ''[^''
   \<and> CHR '']'' \<notin> set ''b'' \<and> \<not> str_includes ''y [1]'' ''[^''
   \<and> references (parseSourceContent
         (generateCueContent codeunit_compare plain_settings ''My cues\<newline>\<newline>[^z]: old\<newline>'' note_file
            [(''a'', ''x''), (''b'', ''y [1]'')])) = []"
proof -
  let ?h = "''My cues\<newline>\<newline>[^z]: old\<newline>''"
  let ?fs = "[(''a'', ''x''), (''b'', ''y [1]'')]"
  have l: "\<not> str_includes (str_replace (linkToSourceText plain_settings) ''{{sourceNote}}''
        (basename note_file)) ''[^''"
    by code_simp
  have t: "trimEnd (take (firstElementIdx ?h) ?h) = ''My cues''"
    by code_simp
  have n: "\<not> str_includes ''My cues'' ''[^''"
    by code_simp
  have e: "\<forall>e \<in> set ?fs. CHR '']'' \<notin> set (fst e) \<and> \<not> str_includes (snd e) ''[^''"
    by code_simp
  have h: "\<not> str_includes (trimEnd (take (firstElementIdx ?h) ?h)) ''[^''"
    unfolding t by (rule n)
  have "references (parseSourceContent
         (generateCueContent codeunit_compare plain_settings ?h note_file ?fs)) = []"
    using l h e by (rule cue_without_references)
  moreover have "CHR '']'' \<notin> set ''a'' \<and> \<not> str_includes ''x'' ''[^''
      \<and> CHR '']'' \<notin> set ''b'' \<and> \<not> str_includes ''y [1]'' ''[^''"
    using e by simp
  ultimately show ?thesis using l t n by blast
qed

text \<open>
  C6 as stated fails: a definition body that cites another footnote is written into the
  Cue note with its citation.
\<close>

theorem cue_holds_reference_counterexample:
  "generateCueContent codeunit_compare plain_settings [] note_file
       [(''a'', ''see [^b]''), (''b'', ''B'')]
     = ''[[Note|Back to Source]]\<newline>\<newline>[^a]: see [^b]\<newline>\<newline>[^b]: B\<newline>\<newline>```cornell-footnote-links\<newline>```\<newline>''
   \<and> map ref (references (parseSourceContent
         (generateCueContent codeunit_compare plain_settings [] note_file
            [(''a'', ''see [^b]''), (''b'', ''B'')]))) = [''b'']"
  by code_simp

section \<open>Generating the Cue note twice\<close>

text \<open>
  Where \<open>match_index\<close> looks: the line starts before its result hold no match, and a
  stretch without a match is skipped.
\<close>

lemma bol_after_simps [simp]:
  "bol_after bol [] = bol" "bol_after bol (c # cs) = bol_after (is_lt c) cs"
  by (simp_all add: bol_after_def)

lemma match_index_skip:
  "no_match_before P bol a b \<Longrightarrow>
   match_index P bol i (a @ b) = match_index P (bol_after bol a) (i + length a) b"
proof (induction a arbitrary: bol i)
  case Nil
  then show ?case by simp
next
  case (Cons c cs)
  then show ?case by auto
qed

lemma match_index_le: "match_index P bol i s = Some j \<Longrightarrow> j \<le> i + length s"
proof (induction s arbitrary: bol i)
  case Nil
  then show ?case by (simp split: if_splits)
next
  case (Cons c cs)
  then show ?case by (fastforce split: if_splits)
qed

lemma match_index_ge: "match_index P bol i s = Some j \<Longrightarrow> i \<le> j"
proof (induction s arbitrary: bol i)
  case Nil
  then show ?case by (simp split: if_splits)
next
  case (Cons c cs)
  then show ?case by (fastforce split: if_splits)
qed

lemma match_index_gt:
  "match_index P False i s = Some j \<Longrightarrow> i < j"
  by (cases s) (auto dest: match_index_ge)

lemma no_match_before_found:
  "match_index P bol i s = Some j \<Longrightarrow>
   no_match_before P bol (take (j - i) s) (drop (j - i) s)"
proof (induction s arbitrary: bol i)
  case Nil
  then show ?case by simp
next
  case (Cons c cs)
  show ?case
  proof (cases "bol \<and> P (c # cs)")
    case True
    with Cons.prems have "j = i" by simp
    then show ?thesis by simp
  next
    case False
    with Cons.prems have m: "match_index P (is_lt c) (Suc i) cs = Some j" by auto
    then have "Suc i \<le> j" by (rule match_index_ge)
    then have "j - i = Suc (j - Suc i)" by simp
    then show ?thesis
      using Cons.IH [OF m] False by simp
  qed
qed

lemma no_match_before_none:
  "match_index P bol i s = None \<Longrightarrow> no_match_before P bol (take k s) (drop k s)"
proof (induction s arbitrary: bol i k)
  case Nil
  then show ?case by simp
next
  case (Cons c cs)
  then show ?case
    by (cases k) (auto split: if_splits)
qed

lemma no_match_before_append:
  "no_match_before P bol (a1 @ a2) b \<longleftrightarrow>
     no_match_before P bol a1 (a2 @ b) \<and> no_match_before P (bol_after bol a1) a2 b"
  by (induction a1 arbitrary: bol) auto

lemma no_match_before_weaken:
  "no_match_before P True a b \<Longrightarrow> no_match_before P bol a b"
  by (cases a) auto

lemma no_match_before_shorter:
  assumes "no_match_before P bol (take j s) (drop j s)" "k \<le> j"
  shows "no_match_before P bol (take k s) (drop k s)"
proof -
  have "take j s = take k s @ take (j - k) (drop k s)"
    using assms(2) by (metis le_add_diff_inverse take_add)
  moreover have "drop k s = take (j - k) (drop k s) @ drop j s"
    using assms(2) by (metis append_take_drop_id drop_drop le_add_diff_inverse2 add.commute)
  ultimately show ?thesis
    using assms(1) by (metis no_match_before_append)
qed

lemma header_region_clear:
  "no_match_before first_def_here True (take (firstElementIdx H) H) (drop (firstElementIdx H) H)
   \<and> no_match_before code_block_here True (take (firstElementIdx H) H) (drop (firstElementIdx H) H)"
proof -
  let ?i = "firstElementIdx H"
  have le: "?i \<le> length H"
    by (auto simp: firstElementIdx_def Let_def split: option.splits dest: match_index_le)
  have d: "no_match_before first_def_here True (take ?i H) (drop ?i H)"
  proof (cases "match_index first_def_here True 0 H")
    case None
    then show ?thesis by (rule no_match_before_none)
  next
    case (Some i)
    then have "no_match_before first_def_here True (take i H) (drop i H)"
      using no_match_before_found [of first_def_here True 0 H i] by simp
    moreover have "?i \<le> i"
      using Some by (auto simp: firstElementIdx_def Let_def split: option.splits)
    ultimately show ?thesis by (rule no_match_before_shorter)
  qed
  have c: "no_match_before code_block_here True (take ?i H) (drop ?i H)"
  proof (cases "match_index code_block_here True 0 H")
    case None
    then show ?thesis by (rule no_match_before_none)
  next
    case (Some j)
    then have "no_match_before code_block_here True (take j H) (drop j H)"
      using no_match_before_found [of code_block_here True 0 H j] by simp
    moreover have "?i \<le> j"
      using Some by (auto simp: firstElementIdx_def Let_def split: option.splits)
    ultimately show ?thesis by (rule no_match_before_shorter)
  qed
  from d c show ?thesis by simp
qed

text \<open>
  The collapse of newline runs, one character at a time, and what it leaves unchanged:
  a text without a run of three newlines, a block without newlines, and whether
  either pattern of the header search matches.
\<close>

lemma collapseNewlines_drop1:
  "collapseNewlines (CHR ''\<newline>'' # CHR ''\<newline>'' # CHR ''\<newline>'' # s)
   = collapseNewlines (CHR ''\<newline>'' # CHR ''\<newline>'' # s)"
proof (cases "prefix ''\<newline>'' s")
  case True
  then show ?thesis by (auto simp: collapseNewlines_hit prefix_def)
next
  case False
  then have "collapseNewlines (CHR ''\<newline>'' # CHR ''\<newline>'' # s)
     = CHR ''\<newline>'' # CHR ''\<newline>'' # collapseNewlines s"
    by (cases s) (simp_all add: collapseNewlines_step)
  moreover from False have "dropWhile (\<lambda>c. c = CHR ''\<newline>'') s = s"
    by (cases s) auto
  ultimately show ?thesis by (simp add: collapseNewlines_hit)
qed

lemma collapse_induct [case_names Nil step drop]:
  assumes "Q []"
    and "\<And>c cs. \<not> prefix ''\<newline>\<newline>\<newline>'' (c # cs) \<Longrightarrow> Q cs \<Longrightarrow> Q (c # cs)"
    and "\<And>s. Q (CHR ''\<newline>'' # CHR ''\<newline>'' # s)
           \<Longrightarrow> Q (CHR ''\<newline>'' # CHR ''\<newline>'' # CHR ''\<newline>'' # s)"
  shows "Q s"
proof (induction s rule: length_induct)
  case (1 xs)
  show ?case
  proof (cases "prefix ''\<newline>\<newline>\<newline>'' xs")
    case True
    then obtain s where s: "xs = CHR ''\<newline>'' # CHR ''\<newline>'' # CHR ''\<newline>'' # s"
      by (auto simp: prefix_def)
    with 1 have "Q (CHR ''\<newline>'' # CHR ''\<newline>'' # s)" by simp
    then show ?thesis unfolding s by (rule assms(3))
  next
    case False
    show ?thesis
    proof (cases xs)
      case Nil
      then show ?thesis by (simp add: assms(1))
    next
      case (Cons c cs)
      with 1 have "Q cs" by simp
      with False show ?thesis unfolding Cons by (rule assms(2))
    qed
  qed
qed

lemma collapseNewlines_fixed:
  "\<not> str_includes s ''\<newline>\<newline>\<newline>'' \<Longrightarrow> collapseNewlines s = s"
proof (induction s)
  case Nil
  then show ?case by simp
next
  case (Cons c cs)
  then show ?case by (simp add: collapseNewlines_step)
qed

lemma collapseNewlines_idem: "collapseNewlines (collapseNewlines s) = collapseNewlines s"
  by (rule collapseNewlines_fixed) (rule no_triple_collapse)

lemma collapseNewlines_append:
  assumes "s \<noteq> []" "last s \<noteq> CHR ''\<newline>''"
  shows "collapseNewlines (s @ t) = collapseNewlines s @ collapseNewlines t"
proof -
  from assms(1) obtain a c where s: "s = a @ [c]" by (metis rev_exhaust)
  with assms(2) have c: "c \<noteq> CHR ''\<newline>''" by simp
  have "collapseNewlines (s @ t) = collapseNewlines a @ c # collapseNewlines t"
    using collapseNewlines_split [OF c, of a t] by (simp add: s)
  moreover have "collapseNewlines s = collapseNewlines a @ [c]"
    using collapseNewlines_split [OF c, of a "[]"] by (simp add: s)
  ultimately show ?thesis by simp
qed

lemma collapseNewlines_plain_prefix:
  "CHR ''\<newline>'' \<notin> set m \<Longrightarrow> collapseNewlines (m @ b) = m @ collapseNewlines b"
proof (induction m)
  case Nil
  then show ?case by simp
next
  case (Cons a m)
  then have "a \<noteq> CHR ''\<newline>''" by auto
  with Cons show ?case by (simp add: collapseNewlines_other)
qed

lemma prefix_collapseNewlines:
  "CHR ''\<newline>'' \<notin> set m \<Longrightarrow> prefix m (collapseNewlines d) \<longleftrightarrow> prefix m d"
proof (induction m arbitrary: d)
  case Nil
  then show ?case by simp
next
  case (Cons x m)
  show ?case
  proof (cases d)
    case Nil
    then show ?thesis by simp
  next
    case (Cons c cs)
    show ?thesis
    proof (cases "c = CHR ''\<newline>''")
      case True
      have "hd (collapseNewlines d) = c"
        using collapseNewlines_hd [of d] Cons by simp
      moreover have "collapseNewlines d \<noteq> []" using Cons by simp
      ultimately obtain z where "collapseNewlines d = c # z"
        by (cases "collapseNewlines d") auto
      with True Cons Cons.prems show ?thesis by auto
    next
      case False
      with Cons Cons.IH [of cs] Cons.prems show ?thesis
        by (simp add: collapseNewlines_other)
    qed
  qed
qed

lemma str_includes_iff: "str_includes s t \<longleftrightarrow> (\<exists>a b. s = a @ t @ b)"
proof (induction s)
  case Nil
  then show ?case by auto
next
  case (Cons c cs)
  show ?case
  proof
    assume "str_includes (c # cs) t"
    then consider "prefix t (c # cs)" | "str_includes cs t" by auto
    then show "\<exists>a b. c # cs = a @ t @ b"
    proof cases
      case 1
      then obtain b where "c # cs = t @ b" by (auto simp: prefix_def)
      then have "c # cs = [] @ t @ b" by simp
      then show ?thesis by blast
    next
      case 2
      with Cons.IH obtain a b where "cs = a @ t @ b" by auto
      then have "c # cs = (c # a) @ t @ b" by simp
      then show ?thesis by blast
    qed
  next
    assume "\<exists>a b. c # cs = a @ t @ b"
    then obtain a b where ab: "c # cs = a @ t @ b" by auto
    show "str_includes (c # cs) t"
    proof (cases a)
      case Nil
      with ab have "prefix t (c # cs)" by (simp add: prefix_def)
      then show ?thesis by simp
    next
      case (Cons x a')
      with ab have "cs = a' @ t @ b" by simp
      with Cons.IH have "str_includes cs t" by blast
      then show ?thesis by simp
    qed
  qed
qed

lemma str_includes_collapse:
  assumes "CHR ''\<newline>'' \<notin> set l" "str_includes s l"
  shows "str_includes (collapseNewlines s) l"
proof (cases l)
  case Nil
  have "collapseNewlines s = [] @ [] @ collapseNewlines s" by simp
  then show ?thesis unfolding str_includes_iff Nil by blast
next
  case (Cons c l')
  from assms(2) obtain a b where s: "s = a @ l @ b" by (auto simp: str_includes_iff)
  from assms(1) Cons have c: "c \<noteq> CHR ''\<newline>''" and l': "CHR ''\<newline>'' \<notin> set l'" by auto
  have "collapseNewlines s = collapseNewlines a @ c # collapseNewlines (l' @ b)"
    using collapseNewlines_split [OF c, of a "l' @ b"] by (simp add: s Cons)
  also have "\<dots> = collapseNewlines a @ l @ collapseNewlines b"
    by (simp add: collapseNewlines_plain_prefix [OF l'] Cons)
  finally show ?thesis by (auto simp: str_includes_iff)
qed

lemma dropWhile_ws_collapse:
  "dropWhile is_ws (collapseNewlines s) = collapseNewlines (dropWhile is_ws s)"
proof (induction s rule: collapse_induct)
  case Nil
  then show ?case by simp
next
  case (step c cs)
  then show ?case by (simp add: collapseNewlines_step)
next
  case (drop s)
  then show ?case by (simp add: collapseNewlines_drop1 is_ws_def)
qed

lemma lazy_close_collapse: "lazy_close (collapseNewlines t) = lazy_close t"
proof (induction t rule: collapse_induct)
  case Nil
  then show ?case by simp
next
  case (step c cs)
  have "prefix '']:'' (collapseNewlines cs) = prefix '']:'' cs"
    by (rule prefix_collapseNewlines) simp
  with step show ?case by (simp add: collapseNewlines_step)
next
  case (drop s)
  then show ?case by (simp add: collapseNewlines_drop1 is_lt_def)
qed

lemma def_shape_collapse:
  "(case collapseNewlines d of
      c1 # c2 # t \<Rightarrow> c1 = CHR ''['' \<and> c2 = CHR ''^'' \<and> lazy_close t | _ \<Rightarrow> False)
   = (case d of
      c1 # c2 # t \<Rightarrow> c1 = CHR ''['' \<and> c2 = CHR ''^'' \<and> lazy_close t | _ \<Rightarrow> False)"
proof (cases d)
  case Nil
  then show ?thesis by simp
next
  case c1: (Cons c1 r)
  show ?thesis
  proof (cases "c1 = CHR ''\<newline>''")
    case True
    have "hd (collapseNewlines d) = c1" "collapseNewlines d \<noteq> []"
      using collapseNewlines_hd [of d] c1 by simp_all
    then obtain z where "collapseNewlines d = c1 # z"
      by (cases "collapseNewlines d") auto
    with True c1 show ?thesis by (auto split: list.splits)
  next
    case False
    then have e1: "collapseNewlines d = c1 # collapseNewlines r"
      by (simp add: c1 collapseNewlines_other)
    show ?thesis
    proof (cases r)
      case Nil
      with e1 c1 show ?thesis by simp
    next
      case (Cons c2 t)
      show ?thesis
      proof (cases "c2 = CHR ''\<newline>''")
        case True
        have "hd (collapseNewlines r) = c2" "collapseNewlines r \<noteq> []"
          using collapseNewlines_hd [of r] Cons by simp_all
        then obtain z where "collapseNewlines r = c2 # z"
          by (cases "collapseNewlines r") auto
        with True c1 Cons e1 show ?thesis by simp
      next
        case False
        then have "collapseNewlines r = c2 # collapseNewlines t"
          by (simp add: Cons collapseNewlines_other)
        with c1 Cons e1 show ?thesis by (simp add: lazy_close_collapse)
      qed
    qed
  qed
qed

lemma first_def_here_collapse: "first_def_here (collapseNewlines s) = first_def_here s"
  unfolding first_def_here_def dropWhile_ws_collapse by (rule def_shape_collapse)

lemma code_block_here_collapse: "code_block_here (collapseNewlines s) = code_block_here s"
  unfolding code_block_here_def dropWhile_ws_collapse
  by (rule prefix_collapseNewlines) (simp add: codeBlockProcessorId_def)

lemma no_match_before_collapse:
  assumes "\<And>x. P (collapseNewlines x) = P x"
  shows "no_match_before P bol s [] \<Longrightarrow> no_match_before P bol (collapseNewlines s) []"
proof (induction s arbitrary: bol rule: collapse_induct)
  case Nil
  then show ?case by simp
next
  case (step c cs)
  from step.prems have "no_match_before P (is_lt c) (collapseNewlines cs) []"
    by (intro step.IH) simp
  moreover have "P (c # collapseNewlines cs) = P (c # cs)"
    using assms [of "c # cs"] step.hyps by (simp add: collapseNewlines_step)
  ultimately show ?case
    using step.prems step.hyps by (simp add: collapseNewlines_step)
next
  case (drop s)
  from drop.prems have "no_match_before P True (CHR ''\<newline>'' # CHR ''\<newline>'' # s) []"
    by (simp add: is_lt_def)
  then have "no_match_before P True (collapseNewlines (CHR ''\<newline>'' # CHR ''\<newline>'' # s)) []"
    by (rule drop.IH)
  then show ?case
    unfolding collapseNewlines_drop1 by (rule no_match_before_weaken)
qed

text \<open>
  Both patterns of the header search keep matching when text is appended, stop at a
  newline, and skip white space in front.
\<close>

lemma dropWhile_ws_append:
  "dropWhile is_ws x \<noteq> [] \<Longrightarrow> dropWhile is_ws (x @ z) = dropWhile is_ws x @ z"
  by (induction x) auto

lemma dropWhile_ws_last:
  "x \<noteq> [] \<Longrightarrow> \<not> is_ws (last x) \<Longrightarrow> dropWhile is_ws x \<noteq> []"
  by (induction x) (auto split: if_splits)

lemma lazy_close_append: "lazy_close t \<Longrightarrow> lazy_close (t @ z)"
  by (induction t) (auto simp: prefix_def)

lemma first_def_here_append: "first_def_here x \<Longrightarrow> first_def_here (x @ z)"
proof -
  assume a: "first_def_here x"
  then obtain t where d: "dropWhile is_ws x = CHR ''['' # CHR ''^'' # t" and t: "lazy_close t"
    by (auto simp: first_def_here_def split: list.splits)
  have ne: "dropWhile is_ws x \<noteq> []"
    unfolding d by simp
  have "dropWhile is_ws (x @ z) = CHR ''['' # CHR ''^'' # (t @ z)"
    using dropWhile_ws_append [OF ne, of z] d by simp
  with lazy_close_append [OF t, of z] show ?thesis
    by (simp add: first_def_here_def)
qed

lemma prefix_nonempty: "prefix m d \<Longrightarrow> m \<noteq> [] \<Longrightarrow> d \<noteq> []"
  by auto

lemma code_block_here_append: "code_block_here x \<Longrightarrow> code_block_here (x @ z)"
proof -
  assume a: "code_block_here x"
  then have "prefix (''```'' @ codeBlockProcessorId) (dropWhile is_ws x)"
    by (simp only: code_block_here_def)
  then have ne: "dropWhile is_ws x \<noteq> []"
    by (rule prefix_nonempty) simp
  from a show ?thesis
    unfolding code_block_here_def dropWhile_ws_append [OF ne] by (rule prefix_prefix)
qed

lemma prefix_stop:
  "c \<notin> set m \<Longrightarrow> prefix m (d @ c # z) \<longleftrightarrow> prefix m d"
proof (induction m arbitrary: d)
  case Nil
  then show ?case by simp
next
  case (Cons x m)
  then show ?case by (cases d) auto
qed

lemma lazy_close_newline: "lazy_close (t @ CHR ''\<newline>'' # z) = lazy_close t"
proof (induction t)
  case Nil
  then show ?case by (simp add: is_lt_def)
next
  case (Cons c cs)
  have "prefix '']:'' (cs @ CHR ''\<newline>'' # z) = prefix '']:'' cs"
    by (rule prefix_stop) simp
  with Cons show ?case by simp
qed

lemma first_def_here_newline:
  assumes "dropWhile is_ws x \<noteq> []" "first_def_here (x @ CHR ''\<newline>'' # z)"
  shows "first_def_here x"
proof -
  have e: "dropWhile is_ws (x @ CHR ''\<newline>'' # z) = dropWhile is_ws x @ CHR ''\<newline>'' # z"
    by (rule dropWhile_ws_append) (rule assms(1))
  from assms(1) obtain c1 r where d: "dropWhile is_ws x = c1 # r"
    by (cases "dropWhile is_ws x") auto
  show ?thesis
  proof (cases r)
    case Nil
    with assms(2) e d show ?thesis by (simp add: first_def_here_def)
  next
    case (Cons c2 t)
    with assms(2) e d show ?thesis by (simp add: first_def_here_def lazy_close_newline)
  qed
qed

lemma code_block_here_newline:
  assumes "dropWhile is_ws x \<noteq> []" "code_block_here (x @ CHR ''\<newline>'' # z)"
  shows "code_block_here x"
proof -
  have e: "dropWhile is_ws (x @ CHR ''\<newline>'' # z) = dropWhile is_ws x @ CHR ''\<newline>'' # z"
    by (rule dropWhile_ws_append) (rule assms(1))
  have "prefix (''```'' @ codeBlockProcessorId) (dropWhile is_ws x @ CHR ''\<newline>'' # z)
      = prefix (''```'' @ codeBlockProcessorId) (dropWhile is_ws x)"
    by (rule prefix_stop) (simp add: codeBlockProcessorId_def)
  with assms(2) e show ?thesis by (simp add: code_block_here_def)
qed

lemma first_def_here_ws: "is_ws w \<Longrightarrow> first_def_here (w # x) = first_def_here x"
  by (simp add: first_def_here_def)

lemma code_block_here_ws: "is_ws w \<Longrightarrow> code_block_here (w # x) = code_block_here x"
  by (simp add: code_block_here_def)

lemma no_match_before_inner:
  assumes "\<And>x z. P x \<Longrightarrow> P (x @ z)"
  shows "no_match_before P bol a b \<Longrightarrow> no_match_before P bol a []"
proof (induction a arbitrary: bol)
  case Nil
  then show ?case by simp
next
  case (Cons c cs)
  from Cons.prems have "bol \<Longrightarrow> \<not> P ((c # cs) @ b)" by simp
  with assms [of "c # cs" b] have "bol \<Longrightarrow> \<not> P (c # cs)" by blast
  with Cons show ?case by auto
qed

lemma no_match_before_newline:
  assumes "\<And>x z. dropWhile is_ws x \<noteq> [] \<Longrightarrow> P (x @ CHR ''\<newline>'' # z) \<Longrightarrow> P x"
  shows "no_match_before P bol a [] \<Longrightarrow> a = [] \<or> \<not> is_ws (last a)
         \<Longrightarrow> no_match_before P bol a (CHR ''\<newline>'' # z)"
proof (induction a arbitrary: bol)
  case Nil
  then show ?case by simp
next
  case (Cons c cs)
  from Cons.prems(2) have "dropWhile is_ws (c # cs) \<noteq> []"
    by (intro dropWhile_ws_last) simp_all
  with assms [of "c # cs" z] have "P ((c # cs) @ CHR ''\<newline>'' # z) \<Longrightarrow> P (c # cs)" by blast
  moreover from Cons.prems(2) have "cs = [] \<or> \<not> is_ws (last cs)" by (auto split: if_splits)
  ultimately show ?case using Cons.IH [of "is_lt c"] Cons.prems(1) by auto
qed

lemma no_match_before_line:
  "\<forall>c \<in> set a. \<not> is_lt c \<Longrightarrow>
   no_match_before P bol a b \<longleftrightarrow> a = [] \<or> \<not> (bol \<and> P (a @ b))"
proof (induction a arbitrary: bol)
  case Nil
  then show ?case by simp
next
  case (Cons c cs)
  then have "no_match_before P (is_lt c) cs b" by (cases cs) auto
  then show ?case by simp
qed

lemma no_match_before_head:
  "no_match_before P True a b \<Longrightarrow> a \<noteq> [] \<Longrightarrow> \<not> P (a @ b)"
  by (cases a) auto

lemma is_lt_ws: "is_lt c \<Longrightarrow> is_ws c"
  by (auto simp: is_lt_def is_ws_def)

lemma header_clear:
  assumes nl: "\<And>x z. dropWhile is_ws x \<noteq> [] \<Longrightarrow> P (x @ CHR ''\<newline>'' # z) \<Longrightarrow> P x"
    and ws: "\<And>x. P (CHR ''\<newline>'' # x) = P x"
    and link: "\<forall>c \<in> set l. \<not> is_lt c" "l = [] \<or> \<not> is_ws (last l)" "\<not> P l"
    and h0: "no_match_before P True h0 []"
  shows "no_match_before P True
           (if \<not> str_includes h0 l
            then (if h0 \<noteq> [] then l @ ''\<newline>\<newline>'' @ h0 else l) else h0) []"
proof (cases "str_includes h0 l")
  case True
  with h0 show ?thesis by simp
next
  case False
  have l: "l \<noteq> []"
  proof
    assume "l = []"
    then have "h0 = [] @ l @ h0" by simp
    then have "str_includes h0 l" unfolding str_includes_iff by blast
    with False show False by simp
  qed
  have one: "no_match_before P True l []"
    using link by (simp add: no_match_before_line)
  show ?thesis
  proof (cases "h0 = []")
    case True
    with False one show ?thesis by simp
  next
    case ne: False
    from l link(2) have dw: "dropWhile is_ws l \<noteq> []" by (auto intro: dropWhile_ws_last)
    have "\<not> P (l @ CHR ''\<newline>'' # CHR ''\<newline>'' # h0)"
      using nl [OF dw] link(3) by blast
    then have a: "no_match_before P True l (''\<newline>\<newline>'' @ h0 @ [])"
      using link(1) l by (simp add: no_match_before_line)
    have "\<not> is_lt (last l)" using link(1) l by simp
    then have b: "bol_after True l = False" using l by (simp add: bol_after_def)
    from h0 ne have "\<not> P h0" using no_match_before_head [of P h0 "[]"] by simp
    then have "no_match_before P False (''\<newline>\<newline>'' @ h0) []"
      using h0 by (simp add: ws is_lt_def)
    with a b have "no_match_before P True (l @ ''\<newline>\<newline>'' @ h0) []"
      by (simp only: no_match_before_append [of P True l] append_Nil2)
    with False ne show ?thesis by simp
  qed
qed

lemma extracted_header_clear:
  "no_match_before first_def_here True (trimEnd (take (firstElementIdx H) H)) []
   \<and> no_match_before code_block_here True (trimEnd (take (firstElementIdx H) H)) []"
proof -
  let ?t = "take (firstElementIdx H) H"
  obtain w where w: "?t = trimEnd ?t @ w"
    using trimEnd_decomp [of ?t] by blast
  have "no_match_before first_def_here True (trimEnd ?t @ w) (drop (firstElementIdx H) H)"
       "no_match_before code_block_here True (trimEnd ?t @ w) (drop (firstElementIdx H) H)"
    using header_region_clear [of H] w by simp_all
  then have "no_match_before first_def_here True (trimEnd ?t) (w @ drop (firstElementIdx H) H)"
       "no_match_before code_block_here True (trimEnd ?t) (w @ drop (firstElementIdx H) H)"
    by (simp_all add: no_match_before_append)
  then show ?thesis
    by (blast intro: no_match_before_inner first_def_here_append code_block_here_append)
qed

text \<open>
  The header found in a generated note: a generated note is its collapsed header, then
  a newline, or an empty line and the definitions. The search for the first definition
  line or code block stops right after the header.
\<close>

lemma trimEnd_append_ws: "\<forall>c \<in> set w. is_ws c \<Longrightarrow> trimEnd (s @ w) = trimEnd s"
proof -
  assume "\<forall>c \<in> set w. is_ws c"
  then have "dropWhile is_ws (rev w @ rev s) = dropWhile is_ws (rev s)"
    by (intro dropWhile_append2) simp
  then show ?thesis by (simp add: trimEnd_def)
qed

lemma trimEnd_id: "s = [] \<or> \<not> is_ws (last s) \<Longrightarrow> trimEnd s = s"
proof -
  assume a: "s = [] \<or> \<not> is_ws (last s)"
  have "dropWhile is_ws (rev s) = rev s"
    unfolding dropWhile_eq_self_iff using a by (auto simp: hd_rev)
  then show ?thesis by (simp add: trimEnd_def)
qed

lemma lazy_close_ref:
  "r \<noteq> [] \<Longrightarrow> \<forall>c \<in> set r. \<not> is_lt c \<Longrightarrow> lazy_close (r @ CHR '']'' # CHR '':'' # z)"
proof (induction r)
  case Nil
  then show ?case by simp
next
  case (Cons c cs)
  then show ?case by (cases cs) auto
qed

lemma join_Cons: "\<exists>z. join sep (x # xs) = x @ z"
  by (cases xs) auto

lemma match_index_past_header:
  assumes nl: "\<And>x z. dropWhile is_ws x \<noteq> [] \<Longrightarrow> P (x @ CHR ''\<newline>'' # z) \<Longrightarrow> P x"
    and h: "no_match_before P True h []" "h \<noteq> []" "\<not> is_ws (last h)"
  shows "match_index P True 0 (h @ CHR ''\<newline>'' # z) = match_index P True (Suc (length h)) z"
proof -
  have a: "no_match_before P True h (CHR ''\<newline>'' # z)"
    using nl h(1) h(3) by (intro no_match_before_newline) auto
  have "\<not> is_lt (last h)" using h(3) is_lt_ws by blast
  then have b: "bol_after True h = False" using h(2) by (simp add: bol_after_def)
  have "no_match_before P True (h @ [CHR ''\<newline>'']) z"
    unfolding no_match_before_append using a b by simp
  then have "match_index P True 0 ((h @ [CHR ''\<newline>'']) @ z)
      = match_index P (bol_after True (h @ [CHR ''\<newline>''])) (0 + length (h @ [CHR ''\<newline>''])) z"
    by (rule match_index_skip)
  moreover have "bol_after True (h @ [CHR ''\<newline>'']) = True"
    by (simp add: bol_after_def is_lt_def)
  ultimately show ?thesis by simp
qed

lemma header_again_plain:
  assumes "no_match_before first_def_here True h []" "no_match_before code_block_here True h []"
    and "h \<noteq> []" "\<not> is_ws (last h)"
  shows "trimEnd (take (firstElementIdx (h @ ''\<newline>'')) (h @ ''\<newline>'')) = h"
proof -
  have d: "match_index first_def_here True 0 (h @ CHR ''\<newline>'' # []) = None"
    using match_index_past_header [of first_def_here h "[]"] assms first_def_here_newline
    by (simp add: first_def_here_def)
  have c: "match_index code_block_here True 0 (h @ CHR ''\<newline>'' # []) = None"
    using match_index_past_header [of code_block_here h "[]"] assms code_block_here_newline
    by (simp add: code_block_here_def)
  have "firstElementIdx (h @ ''\<newline>'') = length (h @ ''\<newline>'')"
    using d c by (simp add: firstElementIdx_def)
  then have "take (firstElementIdx (h @ ''\<newline>'')) (h @ ''\<newline>'') = h @ ''\<newline>''"
    by simp
  moreover have "trimEnd (h @ ''\<newline>'') = h"
    using trimEnd_append_ws [of "''\<newline>''" h] trimEnd_id [of h] assms(4)
    by (simp add: is_ws_def)
  ultimately show ?thesis by simp
qed

lemma header_again_defs:
  assumes "no_match_before first_def_here True h []" "no_match_before code_block_here True h []"
    and "h \<noteq> []" "\<not> is_ws (last h)" and t: "first_def_here t"
  shows "trimEnd (take (firstElementIdx (h @ ''\<newline>\<newline>'' @ t)) (h @ ''\<newline>\<newline>'' @ t)) = h"
proof -
  let ?z = "CHR ''\<newline>'' # t"
  let ?s = "h @ CHR ''\<newline>'' # ?z"
  have "first_def_here ?z" using t by (simp add: first_def_here_ws is_ws_def)
  then have "match_index first_def_here True (Suc (length h)) ?z = Some (Suc (length h))"
    by simp
  then have d: "match_index first_def_here True 0 ?s = Some (Suc (length h))"
    using match_index_past_header [of first_def_here h ?z] assms first_def_here_newline
    by simp
  have c: "match_index code_block_here True 0 ?s = match_index code_block_here True (Suc (length h)) ?z"
    using match_index_past_header [of code_block_here h ?z] assms code_block_here_newline
    by simp
  have "firstElementIdx ?s = Suc (length h)"
  proof (cases "match_index code_block_here True (Suc (length h)) ?z")
    case None
    with d c show ?thesis by (simp add: firstElementIdx_def)
  next
    case (Some j)
    then have "Suc (length h) \<le> j" by (rule match_index_ge)
    with Some d c show ?thesis by (simp add: firstElementIdx_def)
  qed
  then have "take (firstElementIdx ?s) ?s = h @ ''\<newline>''"
    by simp
  moreover have "trimEnd (h @ ''\<newline>'') = h"
    using trimEnd_append_ws [of "''\<newline>''" h] trimEnd_id [of h] assms(4)
    by (simp add: is_ws_def)
  ultimately show ?thesis by simp
qed

lemma header_again_first:
  assumes "first_def_here t"
  shows "firstElementIdx t = 0"
proof -
  have "match_index first_def_here True 0 t = Some 0"
    using assms by (cases t) simp_all
  then show ?thesis
    by (simp add: firstElementIdx_def split: option.splits)
qed

lemma header_again_empty: "trimEnd (take k ''\<newline>'') = []"
  by (cases k) (simp_all add: trimEnd_def is_ws_def)

lemma first_def_here_join:
  assumes "es \<noteq> []" "\<forall>e \<in> set es. fst e \<noteq> [] \<and> (\<forall>c \<in> set (fst e). \<not> is_lt c)"
  shows "first_def_here (join sep (map render_def es) @ z)"
proof -
  from assms(1) obtain e es' where es: "es = e # es'" by (cases es) auto
  obtain y where y: "join sep (map render_def es) = render_def e @ y"
    using join_Cons [of sep "render_def e" "map render_def es'"] es by auto
  have "lazy_close (fst e @ CHR '']'' # CHR '':'' # ('' '' @ snd e @ y @ z))"
    using assms(2) es by (intro lazy_close_ref) auto
  then show ?thesis
    by (simp add: y render_def_def first_def_here_def is_ws_def)
qed

lemma join_render_hd:
  assumes "es \<noteq> []"
  shows "\<exists>r. join sep (map render_def es) @ z = CHR ''['' # r"
proof -
  from assms obtain e es' where es: "es = e # es'" by (cases es) auto
  obtain y where y: "join sep (map render_def es) = render_def e @ y"
    using join_Cons [of sep "render_def e" "map render_def es'"] es by auto
  show ?thesis by (simp add: y render_def_def)
qed

text \<open>
  Generating from one's own output gives the same text again when the back-link is one
  line without white space at its end that neither pattern takes for the start of the
  generated part, and every ref is one non-empty line. The header \<open>H\<close>, the definition
  bodies and the collation are arbitrary.
\<close>

lemma generateCueContent_twice:
  assumes link:
      "\<forall>c \<in> set (str_replace (linkToSourceText cfg) ''{{sourceNote}}'' (basename src)). \<not> is_lt c"
      "str_replace (linkToSourceText cfg) ''{{sourceNote}}'' (basename src) = []
       \<or> \<not> is_ws (last (str_replace (linkToSourceText cfg) ''{{sourceNote}}'' (basename src)))"
      "\<not> first_def_here (str_replace (linkToSourceText cfg) ''{{sourceNote}}'' (basename src))"
      "\<not> code_block_here (str_replace (linkToSourceText cfg) ''{{sourceNote}}'' (basename src))"
    and refs: "\<forall>e \<in> set A. fst e \<noteq> [] \<and> (\<forall>c \<in> set (fst e). \<not> is_lt c)"
  shows "generateCueContent lc cfg (generateCueContent lc cfg H src A) src A
       = generateCueContent lc cfg H src A"
proof -
  define l where "l = str_replace (linkToSourceText cfg) ''{{sourceNote}}'' (basename src)"
  define t0 where "t0 = join ''\<newline>\<newline>'' (map render_def (sorted_entries lc A))
                        @ ''\<newline>\<newline>```'' @ codeBlockProcessorId @ ''\<newline>```\<newline>''"
  define header where "header X =
     (if \<not> str_includes (trimEnd (take (firstElementIdx X) X)) l
      then (if trimEnd (take (firstElementIdx X) X) \<noteq> []
            then l @ ''\<newline>\<newline>'' @ trimEnd (take (firstElementIdx X) X) else l)
      else trimEnd (take (firstElementIdx X) X))" for X
  define gen where "gen h =
     collapseNewlines (trimEnd ((if h \<noteq> [] then h @ ''\<newline>\<newline>'' else [])
        @ (if A \<noteq> [] then join ''\<newline>\<newline>'' (map render_def (sorted_entries lc A)) else [])
        @ (if A \<noteq> [] then ''\<newline>\<newline>```'' @ codeBlockProcessorId @ ''\<newline>```\<newline>'' else []))
        @ ''\<newline>'')" for h
  define tail where "tail e =
     (if A \<noteq> [] then (if e then collapseNewlines t0 else ''\<newline>\<newline>'' @ collapseNewlines t0)
      else ''\<newline>'')" for e
  note lk = link [folded l_def]
  have out: "generateCueContent lc cfg X src A = gen (header X)" for X
    by (simp add: generateCueContent_def gen_def header_def Let_def l_def)
  have srt: "A \<noteq> [] \<Longrightarrow> sorted_entries lc A \<noteq> []"
    using set_sort_by [of "\<lambda>a b. lc (fst a) (fst b)" A]
    by (auto simp: sorted_entries_def)
  have srt_refs: "\<forall>e \<in> set (sorted_entries lc A). fst e \<noteq> [] \<and> (\<forall>c \<in> set (fst e). \<not> is_lt c)"
    using refs by (simp add: sorted_entries_def set_sort_by)
  have t0_def_here: "first_def_here t0" if "A \<noteq> []"
    unfolding t0_def using srt [OF that] srt_refs by (rule first_def_here_join)
  have t0_hd: "\<exists>r. t0 = CHR ''['' # r" if "A \<noteq> []"
    unfolding t0_def using srt [OF that] by (rule join_render_hd)
  have shape: "gen h = collapseNewlines h @ tail (h = [])" if h: "h = [] \<or> \<not> is_ws (last h)" for h
  proof (cases "A = []")
    case True
    show ?thesis
    proof (cases "h = []")
      case True
      with \<open>A = []\<close> show ?thesis
        by (simp add: gen_def tail_def trimEnd_def collapseNewlines_step)
    next
      case False
      with h have nw: "\<not> is_ws (last h)" by simp
      then have nn: "last h \<noteq> CHR ''\<newline>''" by (auto simp: is_ws_def)
      have "trimEnd (h @ ''\<newline>\<newline>'') = h"
        using trimEnd_append_ws [of "''\<newline>\<newline>''" h] trimEnd_id [of h] nw
        by (simp add: is_ws_def)
      moreover have "collapseNewlines (h @ ''\<newline>'') = collapseNewlines h @ ''\<newline>''"
        using collapseNewlines_append [OF False nn, of "''\<newline>''"]
        by (simp add: collapseNewlines_step)
      ultimately show ?thesis
        using False \<open>A = []\<close> by (simp add: gen_def tail_def)
    qed
  next
    case ne: False
    from t0_hd [OF ne] obtain r where r: "t0 = CHR ''['' # r" by blast
    let ?fh = "if h \<noteq> [] then h @ ''\<newline>\<newline>'' else []"
    let ?body = "?fh @ join ''\<newline>\<newline>'' (map render_def (sorted_entries lc A))
                   @ ''\<newline>\<newline>```'' @ codeBlockProcessorId @ ''\<newline>```''"
    have "trimEnd (?body @ ''\<newline>'') = trimEnd ?body"
      by (rule trimEnd_append_ws) (simp add: is_ws_def)
    also have "\<dots> = ?body"
      by (rule trimEnd_id) (simp add: is_ws_def)
    finally have "gen h = collapseNewlines (?fh @ t0)"
      using ne by (simp add: gen_def t0_def)
    also have "\<dots> = collapseNewlines h @ tail (h = [])"
    proof (cases "h = []")
      case True
      with ne show ?thesis by (simp add: tail_def)
    next
      case False
      with h have "last h \<noteq> CHR ''\<newline>''" by (auto simp: is_ws_def)
      then have "collapseNewlines (h @ ''\<newline>\<newline>'' @ t0)
          = collapseNewlines h @ collapseNewlines (''\<newline>\<newline>'' @ t0)"
        using False by (rule collapseNewlines_append [rotated])
      moreover have "collapseNewlines (''\<newline>\<newline>'' @ t0) = ''\<newline>\<newline>'' @ collapseNewlines t0"
        by (simp add: r collapseNewlines_step)
      ultimately show ?thesis using False ne by (simp add: tail_def)
    qed
    finally show ?thesis .
  qed
  define hdr where "hdr = header H"
  define ch where "ch = collapseNewlines hdr"
  have h0_ok: "trimEnd (take (firstElementIdx H) H) = []
               \<or> \<not> is_ws (last (trimEnd (take (firstElementIdx H) H)))"
    by (rule trimEnd_last)
  have hdr_ok: "hdr = [] \<or> \<not> is_ws (last hdr)"
    using h0_ok lk(2) by (auto simp: hdr_def header_def)
  have hdr_inc: "str_includes hdr l"
  proof (cases "str_includes (trimEnd (take (firstElementIdx H) H)) l")
    case True
    then show ?thesis by (simp add: hdr_def header_def)
  next
    case False
    have "\<exists>b. hdr = [] @ l @ b"
      using False by (auto simp: hdr_def header_def)
    then show ?thesis unfolding str_includes_iff by blast
  qed
  have nl_l: "CHR ''\<newline>'' \<notin> set l" using lk(1) by (auto simp: is_lt_def)
  have ch_inc: "str_includes ch l"
    unfolding ch_def using nl_l hdr_inc by (rule str_includes_collapse)
  have clear_d: "no_match_before first_def_here True hdr []"
    unfolding hdr_def header_def
    using first_def_here_newline first_def_here_ws [of "CHR ''\<newline>''"] lk(1) lk(2) lk(3)
      extracted_header_clear [of H, THEN conjunct1]
    by (intro header_clear) (auto simp: is_ws_def)
  have clear_c: "no_match_before code_block_here True hdr []"
    unfolding hdr_def header_def
    using code_block_here_newline code_block_here_ws [of "CHR ''\<newline>''"] lk(1) lk(2) lk(4)
      extracted_header_clear [of H, THEN conjunct2]
    by (intro header_clear) (auto simp: is_ws_def)
  have ch_d: "no_match_before first_def_here True ch []"
    unfolding ch_def using first_def_here_collapse clear_d by (rule no_match_before_collapse)
  have ch_c: "no_match_before code_block_here True ch []"
    unfolding ch_def using code_block_here_collapse clear_c by (rule no_match_before_collapse)
  have ch_nil: "ch = [] \<longleftrightarrow> hdr = []" by (simp add: ch_def)
  have ch_last: "hdr \<noteq> [] \<Longrightarrow> last ch = last hdr"
    unfolding ch_def by (rule collapseNewlines_last)
  have ch_ok: "ch = [] \<or> \<not> is_ws (last ch)"
    using hdr_ok ch_nil ch_last by auto
  have g: "gen hdr = ch @ tail (hdr = [])"
    using shape [OF hdr_ok] by (simp add: ch_def)
  have again: "trimEnd (take (firstElementIdx (gen hdr)) (gen hdr)) = ch"
  proof (cases "hdr = []")
    case True
    then have ch0: "ch = []" by (simp add: ch_nil)
    have g0: "gen hdr = tail True" using g True ch0 by simp
    show ?thesis
    proof (cases "A = []")
      case True
      then show ?thesis
        unfolding g0 ch0 by (simp add: tail_def header_again_empty)
    next
      case False
      have "first_def_here (collapseNewlines t0)"
        using t0_def_here [OF False] by (simp add: first_def_here_collapse)
      then have "firstElementIdx (collapseNewlines t0) = 0" by (rule header_again_first)
      with False show ?thesis
        unfolding g0 ch0 by (simp add: tail_def trimEnd_def)
    qed
  next
    case False
    then have c1: "ch \<noteq> []" and c2: "\<not> is_ws (last ch)"
      using ch_nil ch_ok by auto
    show ?thesis
    proof (cases "A = []")
      case True
      with False show ?thesis
        unfolding g using header_again_plain [OF ch_d ch_c c1 c2] by (simp add: tail_def)
    next
      case ne: False
      have "first_def_here (collapseNewlines t0)"
        using t0_def_here [OF ne] by (simp add: first_def_here_collapse)
      with False ne show ?thesis
        unfolding g using header_again_defs [OF ch_d ch_c c1 c2, of "collapseNewlines t0"]
        by (simp add: tail_def)
    qed
  qed
  have "header (gen hdr) = ch"
    using again ch_inc by (simp add: header_def)
  then have "gen (header (gen hdr)) = gen ch" by simp
  also have "\<dots> = collapseNewlines ch @ tail (ch = [])"
    using ch_ok by (rule shape)
  also have "\<dots> = gen hdr"
    by (simp add: g ch_nil) (simp add: ch_def collapseNewlines_idem)
  finally show ?thesis
    by (simp add: out hdr_def)
qed

lemma generateCueContent_twice_example:
  "generateCueContent codeunit_compare plain_settings
     (generateCueContent codeunit_compare plain_settings H note_file
        [(''b'', ''y [^c]''), (''a 1'', ''x'')])
     note_file [(''b'', ''y [^c]''), (''a 1'', ''x'')]
   = generateCueContent codeunit_compare plain_settings H note_file
       [(''b'', ''y [^c]''), (''a 1'', ''x'')]"
  by (rule generateCueContent_twice; code_simp)

section \<open>Properties of the forward sync\<close>

lemma map_set_fresh: "k \<notin> fst ` set m \<Longrightarrow> map_set k v m = m @ [(k, v)]"
  by (induction m) auto

lemma fold_map_set_distinct:
  "distinct (map fst (acc @ m)) \<Longrightarrow> fold (\<lambda>e. map_set (fst e) (snd e)) m acc = acc @ m"
proof (induction m arbitrary: acc)
  case Nil
  then show ?case by simp
next
  case (Cons e m)
  have "fst e \<notin> fst ` set acc" using Cons.prems by auto
  then have "map_set (fst e) (snd e) acc = acc @ [e]"
    by (simp add: map_set_fresh)
  moreover have "distinct (map fst ((acc @ [e]) @ m))" using Cons.prems by simp
  ultimately show ?case using Cons.IH [of "acc @ [e]"] by simp
qed

lemma copy_fold_fst:
  "fst (fold (\<lambda>e (fin, ch). (map_set (fst e) (snd e) fin, g e ch)) m (acc, c))
     = fold (\<lambda>e. map_set (fst e) (snd e)) m acc"
  by (induction m arbitrary: acc c) auto

lemma prune_fold_fst:
  "fst (fold (\<lambda>e (fin, ch). if fst e \<notin> P then (map_delete (fst e) fin, g fin e ch) else (fin, ch))
          es (m, c))
     = filter (\<lambda>e. fst e \<in> P \<or> fst e \<notin> fst ` set es) m"
proof (induction es arbitrary: m c)
  case Nil
  then show ?case by simp
next
  case (Cons e es)
  have "filter (\<lambda>x. fst x \<in> P \<or> fst x \<notin> fst ` set es) (map_delete (fst e) m)
      = filter (\<lambda>x. fst x \<in> P \<or> fst x \<notin> fst ` set (e # es)) m" if "fst e \<notin> P"
    using that unfolding map_delete_def filter_filter by (intro filter_cong) auto
  moreover have "filter (\<lambda>x. fst x \<in> P \<or> fst x \<notin> fst ` set es) m
      = filter (\<lambda>x. fst x \<in> P \<or> fst x \<notin> fst ` set (e # es)) m" if "fst e \<in> P"
    using that by (intro filter_cong) auto
  ultimately show ?case
    using Cons.IH by (auto simp: case_prod_beta)
qed

text \<open>
  What step 3 of \<^verbatim>\<open>syncSourceToCue\<close> hands to the generator: the definitions of the Source
  note, keyed by ref; with \<^verbatim>\<open>deleteDefinitionsOnReferenceDelete\<close> those among them whose ref
  the Source cites. The definitions the Cue note holds play no part.
\<close>

lemma forward_final:
  "fst (finalCueFootnotes cfg sourceContent cueFootnotesMap) =
     (if deleteDefinitionsOnReferenceDelete cfg
      then filter (\<lambda>e. fst e \<in> ref ` set (references (parseSourceContent sourceContent)))
             (parseFootnotesSimple sourceContent)
      else parseFootnotesSimple sourceContent)"
proof -
  let ?m = "map_new (map (\<lambda>d. (ref d, defn d)) (definitions (parseSourceContent sourceContent)))"
  have m: "parseFootnotesSimple sourceContent = ?m"
    by (rule parseFootnotesSimple_map_new)
  have d: "distinct (map fst ?m)" by (rule distinct_map_new)
  have copied: "fst (fold (\<lambda>e (fin, ch). (map_set (fst e) (snd e) fin, g e ch)) ?m ([], False)) = ?m"
    for g :: "string \<times> string \<Rightarrow> bool \<Rightarrow> bool"
    unfolding copy_fold_fst using fold_map_set_distinct [of "[]" ?m] d by simp
  have pruned: "fst (fold (\<lambda>e (fin, ch).
                   if fst e \<notin> P then (map_delete (fst e) fin, ch \<or> map_has fin (fst e))
                   else (fin, ch)) ?m (?m, c))
      = filter (\<lambda>e. fst e \<in> P) ?m" for P c
    unfolding prune_fold_fst by (intro filter_cong) auto
  show ?thesis
    unfolding finalCueFootnotes_def Let_def m
    by (simp add: case_prod_beta copied pruned)
qed

text \<open>
  The example of the specification: Source definitions \<open>a\<close>, \<open>b\<close> replace the Cue
  definitions \<open>b\<close>, \<open>c\<close>, and a second pass changes nothing.
\<close>

lemma forward_sync_example:
  "map snd (vault (snd (syncSourceToCue quiet_host note_file
      (two_notes plain_settings ''Text[^a][^b]\<newline>\<newline>[^a]: x\<newline>[^b]: y''
         ''[^b]: old\<newline>\<newline>[^c]: z''))))
     = [''Text[^a][^b]\<newline>\<newline>[^a]: x\<newline>[^b]: y'',
        ''[[Note|Back to Source]]\<newline>\<newline>[^a]: x\<newline>\<newline>[^b]: y\<newline>\<newline>```cornell-footnote-links\<newline>```\<newline>'']
   \<and> snd (syncSourceToCue quiet_host note_file (snd (syncSourceToCue quiet_host note_file
      (two_notes plain_settings ''Text[^a][^b]\<newline>\<newline>[^a]: x\<newline>[^b]: y''
         ''[^b]: old\<newline>\<newline>[^c]: z''))))
     = snd (syncSourceToCue quiet_host note_file
      (two_notes plain_settings ''Text[^a][^b]\<newline>\<newline>[^a]: x\<newline>[^b]: y''
         ''[^b]: old\<newline>\<newline>[^c]: z''))"
  by code_simp

text \<open>
  C1. A second forward sync right after the first is meant to write nothing. For the
  Source note \<^verbatim>\<open>[^a\<close>, newline, \<^verbatim>\<open>b]: x\<close> (a definition whose ref runs over two lines, which
  \<^verbatim>\<open>parseSourceContent\<close> accepts) and an empty Cue note, the first pass writes the back-link,
  the definition and the code block; the second pass takes the definition for header
  text and writes it a second time.
\<close>

theorem second_forward_sync_writes:
  "map snd (vault (snd (syncSourceToCue quiet_host note_file
      (two_notes plain_settings ''[^a\<newline>b]: x'' []))))
     = [''[^a\<newline>b]: x'',
        ''[[Note|Back to Source]]\<newline>\<newline>[^a\<newline>b]: x\<newline>\<newline>```cornell-footnote-links\<newline>```\<newline>'']
   \<and> map snd (vault (snd (syncSourceToCue quiet_host note_file
      (snd (syncSourceToCue quiet_host note_file
         (two_notes plain_settings ''[^a\<newline>b]: x'' []))))))
     = [''[^a\<newline>b]: x'',
        ''[[Note|Back to Source]]\<newline>\<newline>[^a\<newline>b]: x\<newline>\<newline>[^a\<newline>b]: x\<newline>\<newline>```cornell-footnote-links\<newline>```\<newline>'']"
  by code_simp

text \<open>
  C3. Generating the Cue content from its own output is meant to give the same text.
  For the annotation set with the one ref \<open>a\<close>, newline, \<open>b\<close> the pattern that looks for
  the first definition line does not recognise the definition that was written, the
  header runs up to the code block, and the second output holds the definition twice.
\<close>

theorem generateCueContent_not_idempotent:
  "generateCueContent codeunit_compare plain_settings [] note_file [(''a\<newline>b'', ''x'')]
     = ''[[Note|Back to Source]]\<newline>\<newline>[^a\<newline>b]: x\<newline>\<newline>```cornell-footnote-links\<newline>```\<newline>''
   \<and> generateCueContent codeunit_compare plain_settings
       (generateCueContent codeunit_compare plain_settings [] note_file [(''a\<newline>b'', ''x'')])
       note_file [(''a\<newline>b'', ''x'')]
     = ''[[Note|Back to Source]]\<newline>\<newline>[^a\<newline>b]: x\<newline>\<newline>[^a\<newline>b]: x\<newline>\<newline>```cornell-footnote-links\<newline>```\<newline>''"
  by code_simp

section \<open>Properties of the backward sync\<close>

text \<open>
  The example of the specification: the definition of \<open>b\<close> is gone from the Cue note, its
  citation is removed from the Source, the citation of \<open>a\<close> stays and one block with the
  definition of the Cue note is appended.
\<close>

lemma backward_sync_example:
  "updateSourceNoteContentRebuild codeunit_compare ''See[^a] and[^b].\<newline>[^a]: A\<newline>[^b]: B''
       [(''a'', ''A2'')] True True
     = ''See[^a] and.\<newline>\<newline>[^a]: A2\<newline>''"
  by code_simp

text \<open>
  C2. With orphan deletion on, every reference citing a removed ref is meant to go. The
  parser trims the ref of a reference, the pattern that removes references does not: in
  a Source that writes the ref \<open>b\<close> with spaces inside the brackets, definition and
  citation alike, the citation of the removed \<open>b\<close> stays, and the rebuilt note still parses
  to a reference to \<open>b\<close>.
\<close>

theorem padded_reference_survives:
  "map (\<lambda>d. (ref d, defn d))
       (definitions (parseSourceContent ''See[^a] and[^ b ].\<newline>[^a]: A\<newline>[^ b ]: B''))
     = [(''a'', ''A''), (''b'', ''B'')]
   \<and> map ref (references (parseSourceContent ''See[^a] and[^ b ].\<newline>[^a]: A\<newline>[^ b ]: B''))
     = [''a'', ''b'']
   \<and> updateSourceNoteContentRebuild codeunit_compare
       ''See[^a] and[^ b ].\<newline>[^a]: A\<newline>[^ b ]: B'' [(''a'', ''A2'')] True True
     = ''See[^a] and[^ b ].\<newline>\<newline>[^a]: A2\<newline>''
   \<and> map ref (references (parseSourceContent ''See[^a] and[^ b ].\<newline>\<newline>[^a]: A2\<newline>''))
     = [''a'', ''b'']"
  by code_simp

section \<open>Properties of paths and roles\<close>






















section \<open>Properties of the sync coordinator\<close>

text \<open>
  C8. Neither sync function lets a thrown value reach its caller, and a pass that sets
  the flag \<^verbatim>\<open>isSyncing\<close> (it found the flag clear and a note of the right role) ends with
  the flag clear: whatever the storage calls do, whether the \<^verbatim>\<open>try\<close> block runs to its
  end, returns early because the counterpart is missing, or throws.
\<close>

theorem guard_always_released:
  "fst (syncSourceToCue h file st) = None \<and> fst (syncCueToSource h file st) = None \<and>
   (\<not> isSyncing st \<and> \<not> isCueNote (path file) \<and> \<not> isSummaryNote (path file)
      \<longrightarrow> \<not> isSyncing (snd (syncSourceToCue h file st))) \<and>
   (\<not> isSyncing st \<and> isCueNote (path file)
      \<longrightarrow> \<not> isSyncing (snd (syncCueToSource h file st)))"
  by (simp add: syncSourceToCue_def syncCueToSource_def Let_def split: prod.splits)

text \<open>
  A run in which the read of the Source note fails inside the \<^verbatim>\<open>try\<close> block of
  \<^verbatim>\<open>syncCueToSource\<close>, with the flag still set at that moment, and a run of
  \<^verbatim>\<open>syncSourceToCue\<close> in which the read of the Cue note fails.
\<close>

theorem guard_always_released_witness:
  "\<not> isSyncing (two_notes plain_settings ''See[^a].\<newline>[^a]: A'' ''[^a]: A2'')
   \<and> isCueNote (path cue_file)
   \<and> fst (syncCueToSource_try (quiet_host\<lparr>fails := (\<lambda>site. site = ReadSource)\<rparr>) cue_file
          ((two_notes plain_settings ''See[^a].\<newline>[^a]: A'' ''[^a]: A2'')\<lparr>isSyncing := True\<rparr>))
       = Inl (Exn ''read failed'')
   \<and> isSyncing (snd (syncCueToSource_try (quiet_host\<lparr>fails := (\<lambda>site. site = ReadSource)\<rparr>)
          cue_file ((two_notes plain_settings ''See[^a].\<newline>[^a]: A'' ''[^a]: A2'')\<lparr>isSyncing := True\<rparr>)))
   \<and> fst (syncCueToSource (quiet_host\<lparr>fails := (\<lambda>site. site = ReadSource)\<rparr>) cue_file
          (two_notes plain_settings ''See[^a].\<newline>[^a]: A'' ''[^a]: A2'')) = None
   \<and> \<not> isSyncing (snd (syncCueToSource (quiet_host\<lparr>fails := (\<lambda>site. site = ReadSource)\<rparr>)
          cue_file (two_notes plain_settings ''See[^a].\<newline>[^a]: A'' ''[^a]: A2'')))"
proof -
  let ?h = "quiet_host\<lparr>fails := (\<lambda>site. site = ReadSource)\<rparr>"
  let ?st = "two_notes plain_settings ''See[^a].\<newline>[^a]: A'' ''[^a]: A2''"
  have a: "\<not> isSyncing ?st \<and> isCueNote (path cue_file)"
    by code_simp
  have b: "fst (syncCueToSource_try ?h cue_file (?st\<lparr>isSyncing := True\<rparr>)) = Inl (Exn ''read failed'')"
    by code_simp
  have c: "isSyncing (snd (syncCueToSource_try ?h cue_file (?st\<lparr>isSyncing := True\<rparr>)))"
    by code_simp
  have "fst (syncCueToSource ?h cue_file ?st) = None
      \<and> \<not> isSyncing (snd (syncCueToSource ?h cue_file ?st))"
    using guard_always_released [of ?h cue_file ?st] a by blast
  with a b c show ?thesis by blast
qed

end
